theory Spec2Isabelle
  imports
    Main
    "HOL-Library.Word"
    "HOL-Library.Signed_Division"
begin

unbundle bit_operations_syntax

section \<open>Machine integers of the C sources\<close>

text \<open>
  The library is built for 64-bit Linux: \<open>int\<close> has 32 bits, \<open>long\<close>, \<open>time_t\<close> and
  \<open>suseconds_t\<close> have 64 bits. Arithmetic on words wraps around; the signed reading is
  \<open>sint\<close>, signed comparisons are \<open><s\<close> and \<open>\<le>s\<close>.
\<close>

type_synonym c_int = "32 word"
type_synonym c_long = "64 word"

definition LONG_MAX :: c_long where
  "LONG_MAX = 9223372036854775807"

text \<open>C's \<open>/\<close> on \<open>long\<close>: the quotient is truncated towards zero.\<close>

definition c_div :: "c_long \<Rightarrow> c_long \<Rightarrow> c_long" where
  "c_div a b = word_of_int (sint a sdiv sint b)"

section \<open>evutil\_time.c\<close>

record timeval =
  tv_sec :: c_long
  tv_usec :: c_long

record timespec =
  ts_sec :: c_long
  ts_nsec :: c_long

subsection \<open>evutil\_tv\_to\_msec\_\<close>

definition MAX_SECONDS_IN_MSEC_LONG :: c_long where
  "MAX_SECONDS_IN_MSEC_LONG = c_div (LONG_MAX - 999) 1000"

definition evutil_tv_to_msec_' :: "timeval \<Rightarrow> c_long" where
  "evutil_tv_to_msec_' tv =
     (if 1000000 <s tv_usec tv \<or> MAX_SECONDS_IN_MSEC_LONG <s tv_sec tv
      then - 1
      else (tv_sec tv * 1000) + c_div (tv_usec tv + 999) 1000)"

subsection \<open>The timeval macros\<close>

text \<open>
  \<open>timeradd\<close> and \<open>timersub\<close> are the macros of \<open><sys/time.h>\<close>: they add or subtract
  the two fields and carry one second when the microseconds leave \<open>[0, 1000000)\<close>.
\<close>

definition timeradd :: "timeval \<Rightarrow> timeval \<Rightarrow> timeval" where
  "timeradd a b =
     (let s = tv_sec a + tv_sec b; u = tv_usec a + tv_usec b
      in if 1000000 \<le>s u then \<lparr>tv_sec = s + 1, tv_usec = u - 1000000\<rparr>
         else \<lparr>tv_sec = s, tv_usec = u\<rparr>)"

definition timersub :: "timeval \<Rightarrow> timeval \<Rightarrow> timeval" where
  "timersub a b =
     (let s = tv_sec a - tv_sec b; u = tv_usec a - tv_usec b
      in if u <s 0 then \<lparr>tv_sec = s - 1, tv_usec = u + 1000000\<rparr>
         else \<lparr>tv_sec = s, tv_usec = u\<rparr>)"

text \<open>\<open>evutil_timercmp(tvp, uvp, cmp)\<close> of event2/util.h takes the operator as an argument.\<close>

datatype cmp_op = Lt | Le | Gt | Ge | Eq

fun cmp_long :: "cmp_op \<Rightarrow> c_long \<Rightarrow> c_long \<Rightarrow> bool" where
  "cmp_long Lt a b = (a <s b)"
| "cmp_long Le a b = (a \<le>s b)"
| "cmp_long Gt a b = (b <s a)"
| "cmp_long Ge a b = (b \<le>s a)"
| "cmp_long Eq a b = (a = b)"

definition evutil_timercmp :: "timeval \<Rightarrow> timeval \<Rightarrow> cmp_op \<Rightarrow> bool" where
  "evutil_timercmp tvp uvp cmp =
     (if tv_sec tvp = tv_sec uvp then cmp_long cmp (tv_usec tvp) (tv_usec uvp)
      else cmp_long cmp (tv_sec tvp) (tv_sec uvp))"

subsection \<open>The monotonic timer\<close>

record evutil_monotonic_timer =
  monotonic_clock :: c_int
  adjust_monotonic_clock :: timeval
  last_time :: timeval

definition adjust_monotonic_time ::
  "evutil_monotonic_timer \<Rightarrow> timeval \<Rightarrow> evutil_monotonic_timer \<times> timeval" where
  "adjust_monotonic_time base tv0 =
     (let tv = timeradd tv0 (adjust_monotonic_clock base)
      in if evutil_timercmp tv (last_time base) Lt
         then (let adjust = timersub (last_time base) tv;
                   base1 = base\<lparr>adjust_monotonic_clock :=
                                  timeradd adjust (adjust_monotonic_clock base)\<rparr>;
                   tv1 = last_time base1
               in (base1\<lparr>last_time := tv1\<rparr>, tv1))
         else (base\<lparr>last_time := tv\<rparr>, tv))"

text \<open>
  The operating system is a parameter: \<open>gettimeofday\<close> delivers \<open>Some\<close> reading or fails
  (\<open>None\<close>), \<open>clock_gettime\<close> delivers for a clock id \<open>Some\<close> timespec or fails.
  The result is the return value, the timer and the contents of \<open>*tp\<close>.
\<close>

definition evutil_gettime_monotonic_' ::
  "timeval option \<Rightarrow> (c_int \<Rightarrow> timespec option) \<Rightarrow>
   evutil_monotonic_timer \<Rightarrow> timeval \<Rightarrow> c_int \<times> evutil_monotonic_timer \<times> timeval" where
  "evutil_gettime_monotonic_' gettimeofday clock_gettime base tp =
     (if monotonic_clock base <s 0
      then (case gettimeofday of
              None \<Rightarrow> (- 1, base, tp)
            | Some raw \<Rightarrow> (let (base1, tp1) = adjust_monotonic_time base raw
                          in (0, base1, tp1)))
      else (case clock_gettime (monotonic_clock base) of
              None \<Rightarrow> (- 1, base, tp)
            | Some ts \<Rightarrow>
                (0, base, \<lparr>tv_sec = ts_sec ts, tv_usec = c_div (ts_nsec ts) 1000\<rparr>)))"

text \<open>
  A run of queries on one timer: every query sees the next outcome of \<open>gettimeofday\<close>;
  the times of the queries that returned 0 are collected in order.
\<close>

fun gettime_run ::
  "(c_int \<Rightarrow> timespec option) \<Rightarrow> evutil_monotonic_timer \<Rightarrow> timeval \<Rightarrow>
   timeval option list \<Rightarrow> timeval list" where
  "gettime_run cg base tp [] = []"
| "gettime_run cg base tp (r # rs) =
     (case evutil_gettime_monotonic_' r cg base tp of
        (rc, base1, tp1) \<Rightarrow>
          (if rc = 0 then [tp1] else []) @ gettime_run cg base1 tp1 rs)"

subsection \<open>evutil\_configure\_monotonic\_time\_\<close>

definition EV_MONOT_PRECISE :: c_int where "EV_MONOT_PRECISE = 1"
definition EV_MONOT_FALLBACK :: c_int where "EV_MONOT_FALLBACK = 2"

text \<open>The clock ids of Linux's \<open><time.h>\<close>.\<close>

definition CLOCK_MONOTONIC :: c_int where "CLOCK_MONOTONIC = 1"
definition CLOCK_MONOTONIC_COARSE :: c_int where "CLOCK_MONOTONIC_COARSE = 6"

text \<open>
  \<open>event_errx(1, ...)\<close> does not return: the process exits with the given status. The
  result is \<open>Inl status\<close> then, and \<open>Inr\<close> of the return value and the timer otherwise.
  \<open>clock_gettime\<close> is the parameter \<open>cg\<close>; the function only looks at whether it succeeds.
\<close>

definition evutil_configure_monotonic_time_' ::
  "(c_int \<Rightarrow> timespec option) \<Rightarrow> evutil_monotonic_timer \<Rightarrow> c_int \<Rightarrow>
   c_int + (c_int \<times> evutil_monotonic_timer)" where
  "evutil_configure_monotonic_time_' cg base flags =
     (let precise = flags AND EV_MONOT_PRECISE;
          fallback = flags AND EV_MONOT_FALLBACK
      in if CLOCK_MONOTONIC_COARSE <s 0 then Inl 1
         else if precise = 0 \<and> fallback = 0 \<and> cg CLOCK_MONOTONIC_COARSE \<noteq> None
         then Inr (0, base\<lparr>monotonic_clock := CLOCK_MONOTONIC_COARSE\<rparr>)
         else if fallback = 0 \<and> cg CLOCK_MONOTONIC \<noteq> None
         then Inr (0, base\<lparr>monotonic_clock := CLOCK_MONOTONIC\<rparr>)
         else if CLOCK_MONOTONIC <s 0 then Inl 1
         else Inr (0, base\<lparr>monotonic_clock := - 1\<rparr>))"

section \<open>evutil.c: descriptors\<close>

subsection \<open>The kernel's side of the system calls\<close>

text \<open>
  The functions below call \<open>pipe2\<close>, \<open>pipe\<close>, \<open>socketpair\<close>, \<open>fcntl\<close> and \<open>close\<close>.
  The kernel is modelled by its descriptor table, an array indexed by the descriptor
  number: an open descriptor has an entry with its file status flags (\<open>F_GETFL\<close>,
  \<open>F_SETFL\<close>; they include the access mode) and its descriptor flags (\<open>F_GETFD\<close>,
  \<open>F_SETFD\<close>), of which Linux has one, \<open>FD_CLOEXEC\<close>. Descriptors, flag arguments and return values are C \<open>int\<close>s on which no
  arithmetic is done; the stored flag words are non-negative.

  Whether a call that can fail for reasons outside the table (\<open>EMFILE\<close>, \<open>ENOSYS\<close>,
  \<open>EPERM\<close>, ...) does fail is taken from \<open>faults\<close>: each such call removes the first
  element, and fails when it is \<open>True\<close>; with no element left it succeeds.
\<close>

record fd_entry =
  status_flags :: nat
  cloexec :: bool

record kernel =
  fdt :: "fd_entry option list"
  faults :: "bool list"

text \<open>The constants of Linux's \<open><fcntl.h>\<close>.\<close>

definition O_RDONLY :: int where "O_RDONLY = 0"
definition O_WRONLY :: int where "O_WRONLY = 1"
definition O_RDWR :: int where "O_RDWR = 2"
definition O_APPEND :: int where "O_APPEND = 1024"
definition O_NONBLOCK :: int where "O_NONBLOCK = 2048"
definition O_ASYNC :: int where "O_ASYNC = 8192"
definition O_DIRECT :: int where "O_DIRECT = 16384"
definition O_NOATIME :: int where "O_NOATIME = 262144"
definition O_CLOEXEC :: int where "O_CLOEXEC = 524288"
definition FD_CLOEXEC :: int where "FD_CLOEXEC = 1"

text \<open>The status flags that \<open>F_SETFL\<close> can change on Linux; it ignores all others.\<close>

definition SETFL_MASK :: int where
  "SETFL_MASK = O_APPEND OR O_NONBLOCK OR O_ASYNC OR O_DIRECT OR O_NOATIME"

definition lookup_fd :: "fd_entry option list \<Rightarrow> int \<Rightarrow> fd_entry option" where
  "lookup_fd t fd = (if 0 \<le> fd \<and> nat fd < length t then t ! nat fd else None)"

text \<open>A new descriptor is the lowest number that is not open.\<close>

fun first_free :: "fd_entry option list \<Rightarrow> nat" where
  "first_free [] = 0"
| "first_free (None # t) = 0"
| "first_free (Some e # t) = Suc (first_free t)"

definition alloc_fd :: "fd_entry \<Rightarrow> fd_entry option list \<Rightarrow> int \<times> fd_entry option list" where
  "alloc_fd e t =
     (let i = first_free t
      in (int i, if i < length t then t[i := Some e] else t @ [Some e]))"

definition next_fault :: "kernel \<Rightarrow> bool \<times> kernel" where
  "next_fault k =
     (case faults k of [] \<Rightarrow> (False, k) | f # fs \<Rightarrow> (f, k\<lparr>faults := fs\<rparr>))"

text \<open>
  \<open>pipe2(fd, flags)\<close>: on failure \<open>fd\<close> is left as it was. The read end is first.
  Flags other than \<open>O_CLOEXEC\<close>, \<open>O_DIRECT\<close> and \<open>O_NONBLOCK\<close> are \<open>EINVAL\<close>.
\<close>

definition sys_pipe2 :: "int \<times> int \<Rightarrow> int \<Rightarrow> kernel \<Rightarrow> int \<times> (int \<times> int) \<times> kernel" where
  "sys_pipe2 fd flags k =
     (if flags AND NOT (O_CLOEXEC OR O_DIRECT OR O_NONBLOCK) \<noteq> 0 then (- 1, fd, k)
      else case next_fault k of (failed, k1) \<Rightarrow>
        if failed then (- 1, fd, k1)
        else (let st = flags AND (O_DIRECT OR O_NONBLOCK);
                  ce = (flags AND O_CLOEXEC \<noteq> 0);
                  (r, t1) = alloc_fd \<lparr>status_flags = nat (O_RDONLY OR st),
                                      cloexec = ce\<rparr> (fdt k1);
                  (w, t2) = alloc_fd \<lparr>status_flags = nat (O_WRONLY OR st),
                                      cloexec = ce\<rparr> t1
              in (0, (r, w), k1\<lparr>fdt := t2\<rparr>)))"

definition sys_pipe :: "int \<times> int \<Rightarrow> kernel \<Rightarrow> int \<times> (int \<times> int) \<times> kernel" where
  "sys_pipe fd k = sys_pipe2 fd 0 k"

text \<open>\<open>socketpair(AF_UNIX, SOCK_STREAM, 0, fd)\<close>: two connected sockets, open for both directions.\<close>

definition sys_socketpair :: "int \<times> int \<Rightarrow> kernel \<Rightarrow> int \<times> (int \<times> int) \<times> kernel" where
  "sys_socketpair fd k =
     (case next_fault k of (failed, k1) \<Rightarrow>
        if failed then (- 1, fd, k1)
        else (let (a, t1) = alloc_fd \<lparr>status_flags = nat O_RDWR, cloexec = False\<rparr> (fdt k1);
                  (b, t2) = alloc_fd \<lparr>status_flags = nat O_RDWR, cloexec = False\<rparr> t1
              in (0, (a, b), k1\<lparr>fdt := t2\<rparr>)))"

text \<open>
  \<open>fcntl\<close>: the two queries fail only for a descriptor that is not open (\<open>EBADF\<close>);
  the two updates can fail for other reasons as well.
\<close>

definition fcntl_GETFL :: "int \<Rightarrow> kernel \<Rightarrow> int" where
  "fcntl_GETFL fd k =
     (case lookup_fd (fdt k) fd of None \<Rightarrow> - 1 | Some e \<Rightarrow> int (status_flags e))"

definition fcntl_GETFD :: "int \<Rightarrow> kernel \<Rightarrow> int" where
  "fcntl_GETFD fd k =
     (case lookup_fd (fdt k) fd of None \<Rightarrow> - 1 | Some e \<Rightarrow> (if cloexec e then FD_CLOEXEC else 0))"

definition fcntl_SETFL :: "int \<Rightarrow> int \<Rightarrow> kernel \<Rightarrow> int \<times> kernel" where
  "fcntl_SETFL fd arg k =
     (case lookup_fd (fdt k) fd of
        None \<Rightarrow> (- 1, k)
      | Some e \<Rightarrow>
          (case next_fault k of (failed, k1) \<Rightarrow>
             if failed then (- 1, k1)
             else (0, k1\<lparr>fdt := (fdt k1)[nat fd := Some (e\<lparr>status_flags :=
                     nat ((int (status_flags e) AND NOT SETFL_MASK)
                          OR (arg AND SETFL_MASK))\<rparr>)]\<rparr>)))"

definition fcntl_SETFD :: "int \<Rightarrow> int \<Rightarrow> kernel \<Rightarrow> int \<times> kernel" where
  "fcntl_SETFD fd arg k =
     (case lookup_fd (fdt k) fd of
        None \<Rightarrow> (- 1, k)
      | Some e \<Rightarrow>
          (case next_fault k of (failed, k1) \<Rightarrow>
             if failed then (- 1, k1)
             else (0, k1\<lparr>fdt := (fdt k1)[nat fd := Some (e\<lparr>cloexec :=
                     (arg AND FD_CLOEXEC \<noteq> 0)\<rparr>)]\<rparr>)))"

text \<open>\<open>close\<close> releases an open descriptor, whatever it returns.\<close>

definition sys_close :: "int \<Rightarrow> kernel \<Rightarrow> int \<times> kernel" where
  "sys_close fd k =
     (case lookup_fd (fdt k) fd of
        None \<Rightarrow> (- 1, k)
      | Some e \<Rightarrow>
          (case next_fault k of (failed, k1) \<Rightarrow>
             (if failed then - 1 else 0, k1\<lparr>fdt := (fdt k1)[nat fd := None]\<rparr>)))"

subsection \<open>Setting the flags of a descriptor\<close>

text \<open>\<open>event_warn\<close> only writes a log message; it is left out.\<close>

definition evutil_make_socket_nonblocking :: "int \<Rightarrow> kernel \<Rightarrow> int \<times> kernel" where
  "evutil_make_socket_nonblocking fd k =
     (let flags = fcntl_GETFL fd k
      in if flags < 0 then (- 1, k)
         else if flags AND O_NONBLOCK = 0
         then (case fcntl_SETFL fd (flags OR O_NONBLOCK) k of (r, k1) \<Rightarrow>
                 if r = - 1 then (- 1, k1) else (0, k1))
         else (0, k))"

definition evutil_fast_socket_nonblocking :: "int \<Rightarrow> kernel \<Rightarrow> int \<times> kernel" where
  "evutil_fast_socket_nonblocking fd k =
     (case fcntl_SETFL fd O_NONBLOCK k of (r, k1) \<Rightarrow>
        if r = - 1 then (- 1, k1) else (0, k1))"

definition evutil_make_socket_closeonexec :: "int \<Rightarrow> kernel \<Rightarrow> int \<times> kernel" where
  "evutil_make_socket_closeonexec fd k =
     (let flags = fcntl_GETFD fd k
      in if flags < 0 then (- 1, k)
         else if flags AND FD_CLOEXEC = 0
         then (case fcntl_SETFD fd (flags OR FD_CLOEXEC) k of (r, k1) \<Rightarrow>
                 if r = - 1 then (- 1, k1) else (0, k1))
         else (0, k))"

definition evutil_fast_socket_closeonexec :: "int \<Rightarrow> kernel \<Rightarrow> int \<times> kernel" where
  "evutil_fast_socket_closeonexec fd k =
     (case fcntl_SETFD fd FD_CLOEXEC k of (r, k1) \<Rightarrow>
        if r = - 1 then (- 1, k1) else (0, k1))"

definition evutil_closesocket :: "int \<Rightarrow> kernel \<Rightarrow> int \<times> kernel" where
  "evutil_closesocket sock k = sys_close sock k"

subsection \<open>evutil\_make\_internal\_pipe\_\<close>

text \<open>
  The condition that both branches of \<open>evutil_make_internal_pipe_\<close> test after creating
  the pair: the four calls are joined by \<open>||\<close>, so the first that fails ends the chain.
\<close>

definition fast_flags_failed :: "int \<times> int \<Rightarrow> kernel \<Rightarrow> bool \<times> kernel" where
  "fast_flags_failed fd k =
     (case evutil_fast_socket_nonblocking (fst fd) k of (r1, k1) \<Rightarrow>
        if r1 < 0 then (True, k1)
        else case evutil_fast_socket_nonblocking (snd fd) k1 of (r2, k2) \<Rightarrow>
          if r2 < 0 then (True, k2)
          else case evutil_fast_socket_closeonexec (fst fd) k2 of (r3, k3) \<Rightarrow>
            if r3 < 0 then (True, k3)
            else case evutil_fast_socket_closeonexec (snd fd) k3 of (r4, k4) \<Rightarrow>
              (r4 < 0, k4))"

text \<open>The result is the return value, the array \<open>fd\<close> and the kernel.\<close>

definition evutil_make_internal_pipe_' ::
  "int \<times> int \<Rightarrow> kernel \<Rightarrow> int \<times> (int \<times> int) \<times> kernel" where
  "evutil_make_internal_pipe_' fd0 k0 =
     (case sys_pipe2 fd0 (O_NONBLOCK OR O_CLOEXEC) k0 of (r1, fd1, k1) \<Rightarrow>
        if r1 = 0 then (0, fd1, k1)
        else case sys_pipe fd1 k1 of (r2, fd2, k2) \<Rightarrow>
          if r2 = 0
          then (case fast_flags_failed fd2 k2 of (failed, k3) \<Rightarrow>
                  if failed
                  then (let k4 = snd (sys_close (fst fd2) k3);
                            k5 = snd (sys_close (snd fd2) k4)
                        in (- 1, (- 1, - 1), k5))
                  else (0, fd2, k3))
          else case sys_socketpair fd2 k2 of (r3, fd3, k3) \<Rightarrow>
            if r3 = 0
            then (case fast_flags_failed fd3 k3 of (failed, k4) \<Rightarrow>
                    if failed
                    then (let k5 = snd (evutil_closesocket (fst fd3) k4);
                              k6 = snd (evutil_closesocket (snd fd3) k5)
                          in (- 1, (- 1, - 1), k6))
                    else (0, fd3, k4))
            else (- 1, (- 1, - 1), k3))"

subsection \<open>What can be observed of a descriptor\<close>

definition is_open :: "kernel \<Rightarrow> int \<Rightarrow> bool" where
  "is_open k fd = (lookup_fd (fdt k) fd \<noteq> None)"

definition is_nonblocking :: "kernel \<Rightarrow> int \<Rightarrow> bool" where
  "is_nonblocking k fd = (fcntl_GETFL fd k \<noteq> - 1 \<and> fcntl_GETFL fd k AND O_NONBLOCK \<noteq> 0)"

definition is_cloexec :: "kernel \<Rightarrow> int \<Rightarrow> bool" where
  "is_cloexec k fd = (fcntl_GETFD fd k \<noteq> - 1 \<and> fcntl_GETFD fd k AND FD_CLOEXEC \<noteq> 0)"

text \<open>What a call keeps of the table: which descriptors are open, and the two flags where
  they are set.\<close>

definition keeps :: "kernel \<Rightarrow> kernel \<Rightarrow> bool" where
  "keeps k k1 \<longleftrightarrow>
     (\<forall>x. is_open k1 x = is_open k x) \<and>
     (\<forall>x. is_nonblocking k x \<longrightarrow> is_nonblocking k1 x) \<and>
     (\<forall>x. is_cloexec k x \<longrightarrow> is_cloexec k1 x)"

text \<open>A call touches only the descriptors in \<open>S\<close>: every other entry is as before.\<close>

definition touches_only :: "int set \<Rightarrow> kernel \<Rightarrow> kernel \<Rightarrow> bool" where
  "touches_only S k k1 \<longleftrightarrow> (\<forall>x. x \<notin> S \<longrightarrow> lookup_fd (fdt k1) x = lookup_fd (fdt k) x)"

section \<open>evutil.c: formatted output\<close>

text \<open>
  A character buffer is the memory that a \<open>char *\<close> points to: the byte at every offset.
  A C string in a buffer ends before its first NUL; \<open>c_string n\<close> reads the string of a
  buffer of \<open>n\<close> bytes.
\<close>

type_synonym buffer = "nat \<Rightarrow> char"

definition NUL :: char where
  "NUL = CHR 0x00"

definition c_string :: "nat \<Rightarrow> buffer \<Rightarrow> string" where
  "c_string n buf = takeWhile (\<lambda>c. c \<noteq> NUL) (map buf [0..<n])"

text \<open>
  \<open>evutil_vsnprintf\<close> wraps the C library's \<open>vsnprintf\<close>, which is a parameter here:
  from the format, the arguments, the buffer and its length it gives a return value
  and the buffer it leaves behind. \<open>evutil_snprintf\<close> only collects its variable
  arguments for \<open>evutil_vsnprintf\<close>.
\<close>

definition evutil_vsnprintf ::
  "('f \<Rightarrow> 'a \<Rightarrow> buffer \<Rightarrow> nat \<Rightarrow> int \<times> buffer) \<Rightarrow>
   buffer \<Rightarrow> nat \<Rightarrow> 'f \<Rightarrow> 'a \<Rightarrow> int \<times> buffer" where
  "evutil_vsnprintf vsnprintf buf buflen format ap =
     (if buflen = 0 then (0, buf)
      else case vsnprintf format ap buf buflen of
             (r, buf1) \<Rightarrow> (r, buf1(buflen - 1 := NUL)))"

definition evutil_snprintf ::
  "('f \<Rightarrow> 'a \<Rightarrow> buffer \<Rightarrow> nat \<Rightarrow> int \<times> buffer) \<Rightarrow>
   buffer \<Rightarrow> nat \<Rightarrow> 'f \<Rightarrow> 'a \<Rightarrow> int \<times> buffer" where
  "evutil_snprintf vsnprintf buf buflen format ap =
     evutil_vsnprintf vsnprintf buf buflen format ap"

section \<open>The timeout heap\<close>

text \<open>
  Modelled from the spec: the timeout heap (the sources of the heap are not among the
  files under examination; the specification's data model and section 4.4 describe it).
  It is a standard binary min-heap over deadlines in an array: a node is a pair of a
  deadline and an event; the deadline of a parent is at most the deadlines of its
  children; it supports insert, delete of an arbitrary event and peek-min. The index of
  an event's node in the array is stored with the event and updated whenever the node
  moves, so that a delete finds the node without a scan.
\<close>

record heap_node =
  deadline :: int
  event :: nat

text \<open>
  Modelled from the spec: the array of nodes, and for every event the index stored with
  it (\<open>None\<close> for an event that is not in the heap).
\<close>

record timeout_heap =
  nodes :: "heap_node list"
  stored_index :: "nat \<Rightarrow> nat option"

datatype heap_error = Already_In_Heap | Not_In_Heap

definition heap_empty :: timeout_heap where
  "heap_empty = \<lparr>nodes = [], stored_index = (\<lambda>e. None)\<rparr>"

definition parent :: "nat \<Rightarrow> nat" where
  "parent i = (i - 1) div 2"

text \<open>Modelled from the spec: writing a node into a slot updates the index stored with its event.\<close>

definition place :: "timeout_heap \<Rightarrow> nat \<Rightarrow> heap_node \<Rightarrow> timeout_heap" where
  "place h i n =
     h\<lparr>nodes := (nodes h)[i := n], stored_index := (stored_index h)(event n \<mapsto> i)\<rparr>"

definition heap_swap :: "timeout_heap \<Rightarrow> nat \<Rightarrow> nat \<Rightarrow> timeout_heap" where
  "heap_swap h i j =
     (let a = nodes h ! i; b = nodes h ! j in place (place h i b) j a)"

text \<open>
  Modelled from the spec: the two repair loops of a standard binary heap. \<open>sift_up\<close>
  moves the node at \<open>i\<close> towards the root while it is earlier than its parent;
  \<open>sift_down\<close> moves it towards the leaves while a child is earlier, swapping with the
  earliest child.
\<close>

function sift_up :: "timeout_heap \<Rightarrow> nat \<Rightarrow> timeout_heap" where
  "sift_up h i =
     (if 0 < i \<and> i < length (nodes h)
         \<and> deadline (nodes h ! i) < deadline (nodes h ! parent i)
      then sift_up (heap_swap h i (parent i)) (parent i)
      else h)"
  by pat_completeness auto
termination
  by (relation "measure snd") (auto simp: parent_def)

definition min_child :: "timeout_heap \<Rightarrow> nat \<Rightarrow> nat" where
  "min_child h i =
     (let n = length (nodes h); l = 2 * i + 1; r = 2 * i + 2;
          m = (if l < n \<and> deadline (nodes h ! l) < deadline (nodes h ! i) then l else i)
      in if r < n \<and> deadline (nodes h ! r) < deadline (nodes h ! m) then r else m)"

function sift_down :: "timeout_heap \<Rightarrow> nat \<Rightarrow> timeout_heap" where
  "sift_down h i =
     (if i < length (nodes h) \<and> min_child h i \<noteq> i
      then sift_down (heap_swap h i (min_child h i)) (min_child h i)
      else h)"
  by pat_completeness auto
termination
  by (relation "measure (\<lambda>(h, i). length (nodes h) - i)")
     (auto simp: min_child_def heap_swap_def place_def Let_def split: if_splits)

text \<open>
  Modelled from the spec: insert appends the node and repairs upwards; an event that is
  already in the heap is refused.
\<close>

definition heap_insert :: "timeout_heap \<Rightarrow> nat \<Rightarrow> int \<Rightarrow> heap_error + timeout_heap" where
  "heap_insert h e d =
     (if stored_index h e \<noteq> None then Inl Already_In_Heap
      else (let n = length (nodes h);
                h1 = h\<lparr>nodes := nodes h @ [\<lparr>deadline = d, event = e\<rparr>],
                       stored_index := (stored_index h)(e \<mapsto> n)\<rparr>
            in Inr (sift_up h1 n)))"

text \<open>
  Modelled from the spec: delete of an arbitrary event. The event's stored index gives
  the slot; the last node of the array takes the slot and is then moved up, if it is
  earlier than its new parent, or down.
\<close>

definition heap_delete :: "timeout_heap \<Rightarrow> nat \<Rightarrow> heap_error + timeout_heap" where
  "heap_delete h e =
     (case stored_index h e of
        None \<Rightarrow> Inl Not_In_Heap
      | Some i \<Rightarrow>
          if length (nodes h) \<le> i then Inl Not_In_Heap
          else (let n = length (nodes h) - 1;
                    lst = nodes h ! n;
                    h1 = h\<lparr>nodes := butlast (nodes h),
                           stored_index := (stored_index h)(e := None)\<rparr>
                in if i = n then Inr h1
                   else (let h2 = place h1 i lst
                         in if 0 < i \<and> deadline lst < deadline (nodes h2 ! parent i)
                            then Inr (sift_up h2 i)
                            else Inr (sift_down h2 i))))"

definition peek_min_deadline :: "timeout_heap \<Rightarrow> int option" where
  "peek_min_deadline h = (case nodes h of [] \<Rightarrow> None | n # ns \<Rightarrow> Some (deadline n))"

text \<open>The heap invariant: no node is earlier than its parent.\<close>

definition is_heap :: "timeout_heap \<Rightarrow> bool" where
  "is_heap h \<longleftrightarrow>
     (\<forall>i. 0 < i \<and> i < length (nodes h) \<longrightarrow>
          deadline (nodes h ! parent i) \<le> deadline (nodes h ! i))"

text \<open>
  An interleaving of operations. A refused operation (an insert of an event that is in
  the heap, a delete of one that is not) leaves the heap as it is.
\<close>

datatype heap_op = Insert nat int | Delete nat

fun apply_op :: "timeout_heap \<Rightarrow> heap_op \<Rightarrow> timeout_heap" where
  "apply_op h (Insert e d) = (case heap_insert h e d of Inl err \<Rightarrow> h | Inr h1 \<Rightarrow> h1)"
| "apply_op h (Delete e) = (case heap_delete h e of Inl err \<Rightarrow> h | Inr h1 \<Rightarrow> h1)"

definition run_ops :: "heap_op list \<Rightarrow> timeout_heap" where
  "run_ops ops = foldl apply_op heap_empty ops"

text \<open>
  The entries that are present after the same operations, written down without a heap:
  a map from the events to their deadlines.
\<close>

fun present_after :: "(nat \<rightharpoonup> int) \<Rightarrow> heap_op \<Rightarrow> (nat \<rightharpoonup> int)" where
  "present_after m (Insert e d) = (if m e = None then m(e \<mapsto> d) else m)"
| "present_after m (Delete e) = m(e := None)"

definition present :: "heap_op list \<Rightarrow> (nat \<rightharpoonup> int)" where
  "present ops = foldl present_after Map.empty ops"

text \<open>The entries that a heap holds: every event with a stored index, with the deadline
  of the node at that index.\<close>

definition entries :: "timeout_heap \<Rightarrow> (nat \<rightharpoonup> int)" where
  "entries h e = map_option (\<lambda>i. deadline (nodes h ! i)) (stored_index h e)"

text \<open>
  The stored indices are right: the event of the node in slot \<open>i\<close> has \<open>i\<close> stored, and
  a stored index points to the event's node.
\<close>

definition index_ok :: "timeout_heap \<Rightarrow> bool" where
  "index_ok h \<longleftrightarrow>
     (\<forall>i < length (nodes h). stored_index h (event (nodes h ! i)) = Some i) \<and>
     (\<forall>e i. stored_index h e = Some i \<longrightarrow> i < length (nodes h) \<and> event (nodes h ! i) = e)"

text \<open>
  The order with one exception, as it holds inside the repair loops: at \<open>i\<close> the node may
  be earlier than its parent (on the way up), or later than its children (on the way
  down); the nodes around \<open>i\<close> are in order with each other.
\<close>

definition heap_except_up :: "timeout_heap \<Rightarrow> nat \<Rightarrow> bool" where
  "heap_except_up h i \<longleftrightarrow>
     (\<forall>j. 0 < j \<and> j < length (nodes h) \<and> j \<noteq> i \<longrightarrow>
          deadline (nodes h ! parent j) \<le> deadline (nodes h ! j)) \<and>
     (\<forall>j. 0 < j \<and> j < length (nodes h) \<and> parent j = i \<and> 0 < i \<longrightarrow>
          deadline (nodes h ! parent i) \<le> deadline (nodes h ! j))"

definition heap_except_down :: "timeout_heap \<Rightarrow> nat \<Rightarrow> bool" where
  "heap_except_down h i \<longleftrightarrow>
     (\<forall>j. 0 < j \<and> j < length (nodes h) \<and> parent j \<noteq> i \<longrightarrow>
          deadline (nodes h ! parent j) \<le> deadline (nodes h ! j)) \<and>
     (\<forall>j. 0 < j \<and> j < length (nodes h) \<and> parent j = i \<and> 0 < i \<longrightarrow>
          deadline (nodes h ! parent i) \<le> deadline (nodes h ! j))"

section \<open>evutil.c: character classes\<close>

text \<open>
  Each table of the \<open>EVUTIL_IS*_\<close> functions has 256 bits, one for every value of an
  unsigned char, in eight 32-bit words.
\<close>

definition EVUTIL_ISXDIGIT_TABLE :: "32 word list" where
  "EVUTIL_ISXDIGIT_TABLE = [0, 0x3ff0000, 0x7e, 0x7e, 0, 0, 0, 0]"

definition EVUTIL_ISDIGIT_TABLE :: "32 word list" where
  "EVUTIL_ISDIGIT_TABLE = [0, 0x3ff0000, 0, 0, 0, 0, 0, 0]"

text \<open>The body of \<open>IMPL_CTYPE_FN\<close>: bit \<open>u & 31\<close> of word \<open>(u >> 5) & 7\<close>.\<close>

definition ctype_lookup :: "32 word list \<Rightarrow> char \<Rightarrow> bool" where
  "ctype_lookup table c =
     (let u = (of_char c :: nat)
      in (table ! (drop_bit 5 u AND 7)) AND push_bit (u AND 31) 1 \<noteq> 0)"

definition EVUTIL_ISDIGIT_' :: "char \<Rightarrow> bool" where
  "EVUTIL_ISDIGIT_' c = ctype_lookup EVUTIL_ISDIGIT_TABLE c"

definition EVUTIL_ISXDIGIT_' :: "char \<Rightarrow> bool" where
  "EVUTIL_ISXDIGIT_' c = ctype_lookup EVUTIL_ISXDIGIT_TABLE c"



section \<open>arc4random.c and evutil\_rand.c: the secure random number generator\<close>

type_synonym byte = "8 word"

text \<open>
  \<open>struct arc4_stream\<close>: the array \<open>s\<close> has 256 bytes and is indexed by an unsigned
  char, so it is a function from bytes to bytes.
\<close>

record arc4_stream =
  arc4_i :: byte
  arc4_j :: byte
  arc4_s :: "byte \<Rightarrow> byte"

text \<open>
  The file-level variables of arc4random.c: \<open>rs_initialized\<close>, \<open>rs\<close>, \<open>arc4_stir_pid\<close>,
  \<open>arc4_count\<close> and \<open>arc4random_urandom_filename\<close> (\<open>None\<close> for \<open>NULL\<close>). Every function
  below reads and writes them; there is one copy in the process.
\<close>

record arc4_globals =
  rs_initialized :: bool
  rs :: arc4_stream
  arc4_stir_pid :: int
  arc4_count :: c_int
  arc4random_urandom_filename :: "string option"






text \<open>
  \<open>arc4_addrandom(dat, datlen)\<close>: \<open>dat\<close> is the caller's array; all callers below pass a
  \<open>datlen\<close> that is positive and not beyond the array. A byte beyond the list reads as 0.
\<close>

definition byte_at :: "byte list \<Rightarrow> nat \<Rightarrow> byte" where
  "byte_at dat k = (if k < length dat then dat ! k else 0)"

fun arc4_addrandom_loop :: "byte list \<Rightarrow> nat \<Rightarrow> nat \<Rightarrow> nat \<Rightarrow> arc4_stream \<Rightarrow> arc4_stream" where
  "arc4_addrandom_loop dat datlen n 0 st = st"
| "arc4_addrandom_loop dat datlen n (Suc k) st =
     (let i1 = arc4_i st + 1;
          si = arc4_s st i1;
          j1 = arc4_j st + si + byte_at dat (n mod datlen);
          s1 = (arc4_s st)(i1 := arc4_s st j1);
          s2 = s1(j1 := si)
      in arc4_addrandom_loop dat datlen (Suc n) k \<lparr>arc4_i = i1, arc4_j = j1, arc4_s = s2\<rparr>)"

definition arc4_addrandom :: "byte list \<Rightarrow> nat \<Rightarrow> arc4_globals \<Rightarrow> arc4_globals" where
  "arc4_addrandom dat datlen g =
     (let st0 = (rs g)\<lparr>arc4_i := arc4_i (rs g) - 1\<rparr>;
          st1 = arc4_addrandom_loop dat datlen 0 256 st0
      in g\<lparr>rs := st1\<lparr>arc4_j := arc4_i st1\<rparr>\<rparr>)"

definition arc4_getbyte :: "arc4_globals \<Rightarrow> byte \<times> arc4_globals" where
  "arc4_getbyte g =
     (let st = rs g;
          i1 = arc4_i st + 1;
          si = arc4_s st i1;
          j1 = arc4_j st + si;
          sj = arc4_s st j1;
          s1 = (arc4_s st)(i1 := sj);
          s2 = s1(j1 := si)
      in (s2 ((si + sj) AND 0xff), g\<lparr>rs := \<lparr>arc4_i = i1, arc4_j = j1, arc4_s = s2\<rparr>\<rparr>))"

subsection \<open>Seeding\<close>












subsection \<open>Stirring and output\<close>

fun arc4_discard :: "nat \<Rightarrow> arc4_globals \<Rightarrow> arc4_globals" where
  "arc4_discard 0 g = g"
| "arc4_discard (Suc k) g = arc4_discard k (snd (arc4_getbyte g))"








section \<open>The C library's strings and conversions\<close>

text \<open>
  \<open>evutil_inet_ntop\<close> and \<open>evutil_inet_pton\<close> format with \<open>snprintf\<close> and parse with
  \<open>sscanf\<close> and \<open>strtol\<close>. The conversions that they use are modelled here after the C
  standard: \<open>%d\<close> and \<open>%x\<close> for output, \<open>%u\<close> and \<open>%c\<close> for input, and \<open>strtol\<close> with
  base 16. A format is the list of its directives, the variable arguments are a list.
\<close>

definition isspace :: "char \<Rightarrow> bool" where
  "isspace c \<longleftrightarrow> c \<in> set [CHR 0x20, CHR 0x09, CHR 0x0A, CHR 0x0B, CHR 0x0C, CHR 0x0D]"

definition isdigit :: "char \<Rightarrow> bool" where
  "isdigit c \<longleftrightarrow> c \<in> set ''0123456789''"

definition isxdigit :: "char \<Rightarrow> bool" where
  "isxdigit c \<longleftrightarrow> c \<in> set ''0123456789abcdefABCDEF''"

definition digit_char :: "nat \<Rightarrow> char" where
  "digit_char d = ''0123456789abcdef'' ! d"

definition digit_value :: "char \<Rightarrow> nat" where
  "digit_value c =
     (if c \<in> set ''0123456789'' then of_char c - 48
      else if c \<in> set ''abcdef'' then of_char c - 87
      else of_char c - 55)"

text \<open>The digits of a number in base 10 or 16, most significant first, without leading zeros.\<close>

function digits_of :: "nat \<Rightarrow> nat \<Rightarrow> string" where
  "digits_of b n =
     (if b < 2 \<or> n < b then [digit_char n]
      else digits_of b (n div b) @ [digit_char (n mod b)])"
  by pat_completeness auto
termination
  by (relation "measure snd") auto

definition number_of :: "nat \<Rightarrow> string \<Rightarrow> nat" where
  "number_of b ds = foldl (\<lambda>a c. b * a + digit_value c) 0 ds"

subsection \<open>Output\<close>

datatype print_item = Text string | Conv_d | Conv_x

text \<open>
  \<open>%d\<close> prints an \<open>int\<close> in decimal, \<open>%x\<close> an \<open>unsigned int\<close> in hexadecimal with the
  digits \<open>abcdef\<close>. A directive without an argument prints nothing.
\<close>

fun printf_render :: "print_item list \<Rightarrow> int list \<Rightarrow> string" where
  "printf_render [] ap = []"
| "printf_render (Text t # f) ap = t @ printf_render f ap"
| "printf_render (Conv_d # f) (v # ap) =
     (if v < 0 then CHR ''-'' # digits_of 10 (nat (- v)) else digits_of 10 (nat v))
     @ printf_render f ap"
| "printf_render (Conv_x # f) (v # ap) =
     digits_of 16 (nat (v mod 2 ^ 32)) @ printf_render f ap"
| "printf_render (c # f) [] = printf_render f []"

text \<open>Storing a string with its terminating NUL at the start of a buffer.\<close>

definition store_string :: "buffer \<Rightarrow> string \<Rightarrow> buffer" where
  "store_string buf s =
     (\<lambda>k. if k < length s then s ! k else if k = length s then NUL else buf k)"

text \<open>
  \<open>vsnprintf\<close> as C99 defines it: at most \<open>buflen - 1\<close> characters of the output and a
  NUL are stored, and the length of the whole output is returned.
\<close>

definition c99_vsnprintf :: "print_item list \<Rightarrow> int list \<Rightarrow> buffer \<Rightarrow> nat \<Rightarrow> int \<times> buffer" where
  "c99_vsnprintf format ap buf buflen =
     (let out = printf_render format ap
      in (int (length out),
          if buflen = 0 then buf else store_string buf (take (buflen - 1) out)))"

definition strlen :: "nat \<Rightarrow> buffer \<Rightarrow> nat" where
  "strlen n buf = length (c_string n buf)"

text \<open>
  \<open>strlcpy(dst, src, siz)\<close> is the library's own \<open>event_strlcpy_\<close>, declared in
  strlcpy-internal.h; its source is not among the files. It is taken to be the BSD
  function of that name: at most \<open>siz - 1\<close> characters are copied and terminated.
\<close>

definition strlcpy :: "buffer \<Rightarrow> string \<Rightarrow> nat \<Rightarrow> buffer" where
  "strlcpy dst s siz = (if siz = 0 then dst else store_string dst (take (siz - 1) s))"

subsection \<open>Input\<close>

datatype scan_item = Match string | Scan_u | Scan_c

text \<open>
  \<open>%u\<close> takes an optional sign and at least one decimal digit. The C library converts
  them as \<open>strtoul\<close> does, to a 64-bit \<open>unsigned long\<close>: a number beyond \<open>ULONG_MAX\<close>
  gives \<open>ULONG_MAX\<close>, otherwise a minus sign negates modulo \<open>2^64\<close>; the result is then
  stored in the \<open>unsigned int\<close>, which keeps its low 32 bits. \<open>%c\<close> takes one character.
  \<open>sscanf\<close> returns the number of items assigned, or \<open>EOF\<close> (\<open>-1\<close>) when the input
  ends before the first one.
\<close>

definition ULONG_MAX :: nat where "ULONG_MAX = 2 ^ 64 - 1"

definition strtoul_value :: "bool \<Rightarrow> nat \<Rightarrow> nat" where
  "strtoul_value neg v =
     (if ULONG_MAX < v then ULONG_MAX
      else if neg then (2 ^ 64 - v) mod 2 ^ 64 else v)"

definition scan_unsigned :: "string \<Rightarrow> (nat \<times> string) option" where
  "scan_unsigned s =
     (let (neg, s1) =
            (case s of
               [] \<Rightarrow> (False, [])
             | c # r \<Rightarrow> if c = CHR ''-'' then (True, r)
                        else if c = CHR ''+'' then (False, r) else (False, s));
          ds = takeWhile isdigit s1
      in if ds = [] then None
         else Some (strtoul_value neg (number_of 10 ds) mod 2 ^ 32, dropWhile isdigit s1))"

definition scan_stop :: "string \<Rightarrow> nat list \<Rightarrow> int \<times> nat list" where
  "scan_stop s got = (if s = [] \<and> got = [] then - 1 else int (length got), got)"

fun sscanf_items :: "scan_item list \<Rightarrow> string \<Rightarrow> nat list \<Rightarrow> int \<times> nat list" where
  "sscanf_items [] s got = (int (length got), got)"
| "sscanf_items (Match t # f) s got =
     (if take (length t) s = t then sscanf_items f (drop (length t) s) got
      else scan_stop s got)"
| "sscanf_items (Scan_u # f) s got =
     (let s1 = dropWhile isspace s
      in case scan_unsigned s1 of
           None \<Rightarrow> scan_stop s1 got
         | Some (v, s2) \<Rightarrow> sscanf_items f s2 (got @ [v]))"
| "sscanf_items (Scan_c # f) s got =
     (case s of
        [] \<Rightarrow> scan_stop s got
      | c # s2 \<Rightarrow> sscanf_items f s2 (got @ [of_char c]))"

definition sscanf :: "string \<Rightarrow> scan_item list \<Rightarrow> int \<times> nat list" where
  "sscanf s format = sscanf_items format s []"

text \<open>
  \<open>strtol(s, &next, 16)\<close>: white space, an optional sign, an optional \<open>0x\<close> before a
  hexadecimal digit, then the digits; the value is limited to the range of \<open>long\<close>. The
  result is the value and the number of characters up to \<open>next\<close> (0 when there is no
  digit).
\<close>

definition strtol16 :: "string \<Rightarrow> int \<times> nat" where
  "strtol16 s =
     (let ws = takeWhile isspace s;
          s1 = dropWhile isspace s;
          (neg, nsign, s2) =
            (case s1 of
               [] \<Rightarrow> (False, 0, [])
             | c # r \<Rightarrow> if c = CHR ''-'' then (True, 1, r)
                        else if c = CHR ''+'' then (False, 1, r) else (False, 0, s1));
          (npre, s3) =
            (case s2 of
               c0 # cx # h # r \<Rightarrow>
                 if c0 = CHR ''0'' \<and> (cx = CHR ''x'' \<or> cx = CHR ''X'') \<and> isxdigit h
                 then (2, h # r) else (0, s2)
             | _ \<Rightarrow> (0 :: nat, s2));
          ds = takeWhile isxdigit s3;
          v = int (number_of 16 ds)
      in if ds = [] then (0, 0)
         else (if neg then max (- v) (- (2 ^ 63)) else min v (2 ^ 63 - 1),
               length ws + nsign + npre + length ds))"

text \<open>\<open>strchr(s, c)\<close>: the offset of the first \<open>c\<close>, or \<open>None\<close> for \<open>NULL\<close>.\<close>

definition strchr :: "string \<Rightarrow> char \<Rightarrow> nat option" where
  "strchr s c =
     (let k = length (takeWhile (\<lambda>x. x \<noteq> c) s)
      in if k < length s then Some k else None)"

text \<open>The character that a pointer into a string points to: NUL at the end.\<close>

definition char_at :: "string \<Rightarrow> nat \<Rightarrow> char" where
  "char_at s k = (if k < length s then s ! k else NUL)"

section \<open>evutil.c: addresses as text\<close>

definition AF_INET :: int where "AF_INET = 2"
definition AF_INET6 :: int where "AF_INET6 = 10"

text \<open>
  The address that \<open>src\<close> points to is the list of its bytes in memory: 4 bytes of
  \<open>s_addr\<close> in network byte order for \<open>struct in_addr\<close>, the 16 bytes of \<open>s6_addr\<close> for
  \<open>struct in6_addr\<close>. \<open>ntohl(in->s_addr)\<close> is then the number with these four bytes,
  most significant first, on every host; \<open>htonl\<close> stores them back in this order.
\<close>

definition ntohl_s_addr :: "byte list \<Rightarrow> 32 word" where
  "ntohl_s_addr src =
     push_bit 24 (ucast (byte_at src 0)) OR push_bit 16 (ucast (byte_at src 1))
     OR push_bit 8 (ucast (byte_at src 2)) OR ucast (byte_at src 3)"

definition store_htonl :: "32 word \<Rightarrow> byte list \<Rightarrow> byte list" where
  "store_htonl v dst =
     [ucast (drop_bit 24 v), ucast (drop_bit 16 v), ucast (drop_bit 8 v), ucast v]
     @ drop 4 dst"

definition fmt_ipv4 :: "print_item list" where
  "fmt_ipv4 = [Conv_d, Text ''.'', Conv_d, Text ''.'', Conv_d, Text ''.'', Conv_d]"

definition byte_arg :: "byte \<Rightarrow> int" where
  "byte_arg b = uint b"

subsection \<open>evutil\_inet\_ntop\<close>

text \<open>The words of an IPv6 address: \<open>words[i] = (s6_addr[2*i] << 8) + s6_addr[2*i+1]\<close>.\<close>

definition in6_words :: "byte list \<Rightarrow> 16 word list" where
  "in6_words src =
     map (\<lambda>i. push_bit 8 (ucast (byte_at src (2 * i))) + ucast (byte_at src (2 * i + 1)))
       [0..<8]"

text \<open>The inner loop \<open>while (i < 8 && words[i] == 0) ++i\<close>: the zero words from \<open>i\<close> on.\<close>

definition zero_run :: "16 word list \<Rightarrow> nat \<Rightarrow> nat" where
  "zero_run ws i = length (takeWhile (\<lambda>w. w = 0) (drop i ws))"

text \<open>
  The search for the longest gap. The second argument is \<open>(longestGapPos,
  longestGapLen)\<close>; a later gap replaces an earlier one only when it is longer.
\<close>

function gap_search :: "16 word list \<Rightarrow> int \<times> nat \<Rightarrow> nat \<Rightarrow> int \<times> nat" where
  "gap_search ws longest i =
     (if i < 8 \<and> i < length ws
      then (if ws ! i = 0
            then (let curGapLen = zero_run ws i
                  in gap_search ws
                       (if snd longest < curGapLen then (int i, curGapLen) else longest)
                       (i + curGapLen))
            else gap_search ws longest (i + 1))
      else longest)"
  by pat_completeness auto
termination
proof (relation "measure (\<lambda>(ws, longest, i). 8 - i)", goal_cases)
  case 1
  show ?case by simp
next
  case (2 ws longest i curGapLen)
  then have "0 < zero_run ws i"
    by (simp add: zero_run_def flip: Cons_nth_drop_Suc)
  with 2 show ?case by auto
next
  case (3 ws longest i)
  then show ?case by auto
qed

text \<open>
  The output loop. \<open>cp\<close> is an offset into the local array \<open>buf\<close> of 64 bytes; the size
  passed to \<open>evutil_snprintf\<close> is \<open>sizeof(buf) - (cp - buf)\<close>, computed in \<open>size_t\<close>.
\<close>

definition sub_buffer :: "buffer \<Rightarrow> nat \<Rightarrow> buffer" where
  "sub_buffer buf off = (\<lambda>k. buf (off + k))"

definition set_sub_buffer :: "buffer \<Rightarrow> nat \<Rightarrow> buffer \<Rightarrow> buffer" where
  "set_sub_buffer buf off sub = (\<lambda>k. if off \<le> k then sub (k - off) else buf k)"

function format_words :: "16 word list \<Rightarrow> int \<Rightarrow> nat \<Rightarrow> buffer \<times> nat \<Rightarrow> buffer \<times> nat" where
  "format_words ws longestGapPos i (buf, cp) =
     (if i < 8 \<and> i < length ws
      then (if ws ! i = 0 \<and> longestGapPos = int i
            then (let (buf1, cp1) = (if i = 0 then (buf(cp := CHR '':''), cp + 1) else (buf, cp));
                      buf2 = buf1(cp1 := CHR '':'')
                  in format_words ws longestGapPos (i + zero_run ws i) (buf2, cp1 + 1))
            else (let size = nat ((64 - int cp) mod 2 ^ 64);
                      (r, sub) = evutil_snprintf c99_vsnprintf (sub_buffer buf cp) size
                                   [Conv_x] [uint (ws ! i)];
                      buf1 = set_sub_buffer buf cp sub;
                      cp1 = cp + strlen size sub;
                      (buf2, cp2) = (if i \<noteq> 7 then (buf1(cp1 := CHR '':''), cp1 + 1)
                                     else (buf1, cp1))
                  in format_words ws longestGapPos (i + 1) (buf2, cp2)))
      else (buf, cp))"
  by pat_completeness auto
termination
proof (relation "measure (\<lambda>(ws, g, i, b). 8 - i)", goal_cases)
  case 1
  show ?case by simp
next
  case (2 ws g i buf cp x y z)
  then have "0 < zero_run ws i"
    by (simp add: zero_run_def flip: Cons_nth_drop_Suc)
  with 2 show ?case by auto
next
  case 3
  then show ?case by auto
qed

text \<open>
  \<open>evutil_inet_ntop(af, src, dst, len)\<close>. \<open>stack\<close> is what the local array \<open>buf\<close> holds
  when the function is entered. The result says whether \<open>dst\<close> is returned (not \<open>NULL\<close>),
  and gives the contents of \<open>dst\<close> after the call.
\<close>

definition evutil_inet_ntop ::
  "int \<Rightarrow> byte list \<Rightarrow> buffer \<Rightarrow> nat \<Rightarrow> buffer \<Rightarrow> bool \<times> buffer" where
  "evutil_inet_ntop af src dst len stack =
     (if af = AF_INET
      then (let a = ntohl_s_addr src;
                (r, dst1) = evutil_snprintf c99_vsnprintf dst len fmt_ipv4
                   [byte_arg (ucast (drop_bit 24 a AND 0xff)),
                    byte_arg (ucast (drop_bit 16 a AND 0xff)),
                    byte_arg (ucast (drop_bit 8 a AND 0xff)),
                    byte_arg (ucast (a AND 0xff))]
            in if r < 0 \<or> int len \<le> r then (False, dst1) else (True, dst1))
      else if af = AF_INET6
      then (let words = in6_words src
            in if words ! 0 = 0 \<and> words ! 1 = 0 \<and> words ! 2 = 0 \<and> words ! 3 = 0
                  \<and> words ! 4 = 0
                  \<and> ((words ! 5 = 0 \<and> words ! 6 \<noteq> 0 \<and> words ! 7 \<noteq> 0)
                      \<or> words ! 5 = 0xffff)
               then (let (r, buf) =
                           (if words ! 5 = 0
                            then evutil_snprintf c99_vsnprintf stack 64 (Text ''::'' # fmt_ipv4)
                                   [byte_arg (byte_at src 12), byte_arg (byte_at src 13),
                                    byte_arg (byte_at src 14), byte_arg (byte_at src 15)]
                            else evutil_snprintf c99_vsnprintf stack 64
                                   (Text ''::'' # Conv_x # Text '':'' # fmt_ipv4)
                                   [uint (words ! 5),
                                    byte_arg (byte_at src 12), byte_arg (byte_at src 13),
                                    byte_arg (byte_at src 14), byte_arg (byte_at src 15)])
                     in if len < strlen 64 buf then (False, dst)
                        else (True, strlcpy dst (c_string 64 buf) len))
               else (let (longestGapPos, longestGapLen) = gap_search words (- 1, 0) 0;
                         longestGapPos1 = (if longestGapLen \<le> 1 then - 1 else longestGapPos);
                         (buf, cp) = format_words words longestGapPos1 0 (stack, 0);
                         buf1 = buf(cp := NUL)
                     in if len < strlen 64 buf1 then (False, dst)
                        else (True, strlcpy dst (c_string 64 buf1) len)))
      else (False, dst))"

subsection \<open>evutil\_inet\_pton\<close>

definition fmt_scan_ipv4 :: "scan_item list" where
  "fmt_scan_ipv4 = [Scan_u, Match ''.'', Scan_u, Match ''.'', Scan_u, Match ''.'', Scan_u, Scan_c]"

text \<open>
  The loop over the words before \<open>eow\<close>. \<open>rest\<close> is the string from \<open>src\<close> on and \<open>dist\<close>
  is \<open>eow - src\<close>. \<open>None\<close> stands for \<open>return 0\<close>; otherwise the loop ends with
  \<open>gapPos\<close>, \<open>setWords\<close> and \<open>words\<close>.
\<close>

function pton_words ::
  "string \<Rightarrow> int \<Rightarrow> int \<Rightarrow> int \<Rightarrow> int \<Rightarrow> 16 word list \<Rightarrow> (int \<times> int \<times> 16 word list) option" where
  "pton_words rest dist i gapPos setWords words =
     (if 0 < dist
      then (if 7 < i then None
            else if EVUTIL_ISXDIGIT_' (char_at rest 0)
            then (case strtol16 rest of (r, used) \<Rightarrow>
                    if 4 < used then None
                    else if used = 0 then None
                    else if r < 0 \<or> 65536 < r then None
                    else (let words1 = words[nat i := word_of_int r];
                              rest1 = drop used rest;
                              dist1 = dist - int used
                          in if char_at rest1 0 \<noteq> CHR '':'' \<and> dist1 \<noteq> 0 then None
                             else pton_words (drop 1 rest1) (dist1 - 1) (i + 1) gapPos
                                    (setWords + 1) words1))
            else if char_at rest 0 = CHR '':'' \<and> 0 < i \<and> gapPos = - 1
            then pton_words (drop 1 rest) (dist - 1) i i setWords words
            else if char_at rest 0 = CHR '':'' \<and> i = 0 \<and> char_at rest 1 = CHR '':''
                    \<and> gapPos = - 1
            then pton_words (drop 2 rest) (dist - 2) i i setWords words
            else None)
      else Some (gapPos, setWords, words))"
  by pat_completeness auto
termination
  by (relation "measure (\<lambda>(rest, dist, i, g, sw, ws). nat dist)") auto

text \<open>\<open>memmove\<close> and \<open>memset\<close> on the array \<open>words\<close>, counted in words.\<close>

definition move_words :: "16 word list \<Rightarrow> nat \<Rightarrow> nat \<Rightarrow> nat \<Rightarrow> 16 word list" where
  "move_words ws to from n =
     map (\<lambda>k. if to \<le> k \<and> k < to + n then ws ! (from + (k - to)) else ws ! k)
       [0..<length ws]"

definition zero_words :: "16 word list \<Rightarrow> nat \<Rightarrow> nat \<Rightarrow> 16 word list" where
  "zero_words ws at n = map (\<lambda>k. if at \<le> k \<and> k < at + n then 0 else ws ! k) [0..<length ws]"

definition store_in6 :: "16 word list \<Rightarrow> byte list \<Rightarrow> byte list" where
  "store_in6 words dst =
     concat (map (\<lambda>i. [ucast (drop_bit 8 (words ! i)), ucast (words ! i AND 0xff)]) [0..<8])
     @ drop 16 dst"

text \<open>
  \<open>evutil_inet_pton(af, src, dst)\<close>. \<open>dst\<close> is the memory of the address to fill, \<open>stack\<close>
  what the local array \<open>words\<close> holds when the function is entered. The result is the
  return value and the memory of \<open>dst\<close> after the call.
\<close>

definition evutil_inet_pton ::
  "int \<Rightarrow> string \<Rightarrow> byte list \<Rightarrow> 16 word list \<Rightarrow> int \<times> byte list" where
  "evutil_inet_pton af src dst stack =
     (if af = AF_INET
      then (case sscanf src fmt_scan_ipv4 of (n, got) \<Rightarrow>
              if n \<noteq> 4 then (0, dst)
              else (let a = got ! 0; b = got ! 1; c = got ! 2; d = got ! 3
                    in if 255 < a then (0, dst)
                       else if 255 < b then (0, dst)
                       else if 255 < c then (0, dst)
                       else if 255 < d then (0, dst)
                       else (1, store_htonl
                                  (push_bit 24 (of_nat a) OR push_bit 16 (of_nat b)
                                   OR push_bit 8 (of_nat c) OR of_nat d) dst)))
      else if af = AF_INET6
      then (let dot = strchr src (CHR ''.'')
            in if dot = Some 0 then (0, dst)
               else (case (case dot of
                             None \<Rightarrow> Some (length src, stack, 0)
                           | Some d \<Rightarrow>
                               (let eow = d - length (takeWhile EVUTIL_ISDIGIT_' (rev (take d src)))
                                in case sscanf (drop eow src) fmt_scan_ipv4 of (n, got) \<Rightarrow>
                                     if n \<noteq> 4 then None
                                     else (let byte1 = got ! 0; byte2 = got ! 1;
                                               byte3 = got ! 2; byte4 = got ! 3
                                           in if 255 < byte1 \<or> 255 < byte2 \<or> 255 < byte3
                                                 \<or> 255 < byte4
                                              then None
                                              else Some (eow,
                                                     stack[6 := push_bit 8 (of_nat byte1) OR of_nat byte2,
                                                           7 := push_bit 8 (of_nat byte3) OR of_nat byte4],
                                                     2)))) of
                       None \<Rightarrow> (0, dst)
                     | Some (eow, words0, setWords0) \<Rightarrow>
                         (case pton_words src (int eow) 0 (- 1) setWords0 words0 of
                            None \<Rightarrow> (0, dst)
                          | Some (gapPos, setWords, words) \<Rightarrow>
                              if 8 < setWords \<or> (setWords = 8 \<and> gapPos \<noteq> - 1)
                                 \<or> (setWords < 8 \<and> gapPos = - 1)
                              then (0, dst)
                              else if 0 \<le> gapPos
                              then (let nToMove = setWords - (if dot \<noteq> None then 2 else 0) - gapPos;
                                        gapLen = 8 - setWords
                                    in if nToMove < 0 then (- 1, dst)
                                       else (1, store_in6
                                              (zero_words
                                                 (move_words words (nat (gapPos + gapLen))
                                                    (nat gapPos) (nat nToMove))
                                                 (nat gapPos) (nat gapLen)) dst))
                              else (1, store_in6 words dst))))
      else (- 1, dst))"

section \<open>Properties of the time functions\<close>

subsection \<open>Arithmetic helpers\<close>

lemma MAX_SECONDS_IN_MSEC_LONG_value: "MAX_SECONDS_IN_MSEC_LONG = 9223372036854774"
  by (simp add: MAX_SECONDS_IN_MSEC_LONG_def c_div_def LONG_MAX_def signed_divide_int_def)

lemma sint_long_of_int:
  "- (2 ^ 63) \<le> k \<Longrightarrow> k < 2 ^ 63 \<Longrightarrow> sint (word_of_int k :: c_long) = k"
  by (simp add: sint_sbintrunc' signed_take_bit_int_eq_self)

lemma tv_to_msec_in_range:
  assumes sec: "0 \<le>s tv_sec tv" and usec: "0 \<le>s tv_usec tv"
    and small: "\<not> (1000000 <s tv_usec tv \<or> MAX_SECONDS_IN_MSEC_LONG <s tv_sec tv)"
  shows "sint (evutil_tv_to_msec_' tv) =
           sint (tv_sec tv) * 1000 + (sint (tv_usec tv) + 999) div 1000"
proof -
  define s where "s = sint (tv_sec tv)"
  define u where "u = sint (tv_usec tv)"
  have s: "0 \<le> s" "s \<le> 9223372036854774" and u: "0 \<le> u" "u \<le> 1000000"
    using sec usec small
    by (simp_all add: s_def u_def word_sle_eq word_sless_alt
        MAX_SECONDS_IN_MSEC_LONG_value not_less)
  have tvs: "tv_sec tv = word_of_int s" "tv_usec tv = word_of_int u"
    by (simp_all add: s_def u_def)
  have u999: "sint (tv_usec tv + 999) = u + 999"
    using u sint_long_of_int[of "u + 999"] by (simp add: tvs)
  have q: "(u + 999) sdiv 1000 = (u + 999) div 1000"
    using u by (simp add: signed_divide_int_def sgn_if)
  have qb: "0 \<le> (u + 999) div 1000" "(u + 999) div 1000 \<le> 1000"
    using u by simp_all
  have cd: "c_div (tv_usec tv + 999) 1000 = word_of_int ((u + 999) div 1000)"
    by (simp add: c_div_def u999 q)
  have r: "evutil_tv_to_msec_' tv = word_of_int (s * 1000 + (u + 999) div 1000)"
    using small by (simp add: evutil_tv_to_msec_'_def cd) (simp add: tvs)
  show ?thesis
    unfolding r s_def [symmetric] u_def [symmetric]
    using s qb by (intro sint_long_of_int) simp_all
qed

subsection \<open>The order of evutil\_timercmp\<close>

lemma timercmp_ge_refl: "evutil_timercmp a a Ge"
  by (simp add: evutil_timercmp_def)

lemma timercmp_not_lt: "\<not> evutil_timercmp a b Lt \<Longrightarrow> evutil_timercmp a b Ge"
  by (auto simp: evutil_timercmp_def split: if_splits)

lemma timercmp_ge_trans:
  "evutil_timercmp c b Ge \<Longrightarrow> evutil_timercmp b a Ge \<Longrightarrow> evutil_timercmp c a Ge"
  by (auto simp: evutil_timercmp_def split: if_splits)

lemma adjust_ratchet:
  assumes "adjust_monotonic_time base tv = (base1, t)"
  shows "evutil_timercmp t (last_time base) Ge \<and> last_time base1 = t \<and>
         monotonic_clock base1 = monotonic_clock base"
  using assms
  by (auto simp: adjust_monotonic_time_def Let_def timercmp_ge_refl timercmp_not_lt
      split: if_splits)

lemma gettime_run_Nil: "gettime_run cg base tp [] = []"
  by simp

lemma gettime_run_failed:
  "monotonic_clock base <s 0 \<Longrightarrow>
   gettime_run cg base tp (None # rds) = gettime_run cg base tp rds"
  by (simp add: evutil_gettime_monotonic_'_def)

lemma gettime_run_reading:
  "monotonic_clock base <s 0 \<Longrightarrow> adjust_monotonic_time base raw = (base1, t) \<Longrightarrow>
   gettime_run cg base tp (Some raw # rds) = t # gettime_run cg base1 t rds"
  by (simp add: evutil_gettime_monotonic_'_def)

lemma gettime_run_length:
  "monotonic_clock base <s 0 \<Longrightarrow>
   length (gettime_run cg base tp rds) = length (filter (\<lambda>r. r \<noteq> None) rds)"
proof (induction rds arbitrary: base tp)
  case Nil
  show ?case by simp
next
  case (Cons r rds)
  show ?case
  proof (cases r)
    case None
    with Cons show ?thesis by (simp only: gettime_run_failed) simp
  next
    case (Some raw)
    obtain base1 t where adj: "adjust_monotonic_time base raw = (base1, t)"
      by (cases "adjust_monotonic_time base raw")
    have "monotonic_clock base1 <s 0"
      using adjust_ratchet[OF adj] Cons.prems by simp
    from Cons.IH[OF this, of t] show ?thesis
      unfolding Some gettime_run_reading[OF Cons.prems adj] by simp
  qed
qed

lemma gettime_run_sorted:
  "monotonic_clock base <s 0 \<Longrightarrow>
   sorted_wrt (\<lambda>a b. evutil_timercmp b a Ge) (last_time base # gettime_run cg base tp rds)"
proof (induction rds arbitrary: base tp)
  case Nil
  show ?case by simp
next
  case (Cons r rds)
  show ?case
  proof (cases r)
    case None
    with Cons.IH[OF Cons.prems, of tp] Cons.prems show ?thesis
      by (simp only: gettime_run_failed)
  next
    case (Some raw)
    obtain base1 t where adj: "adjust_monotonic_time base raw = (base1, t)"
      by (cases "adjust_monotonic_time base raw")
    from adjust_ratchet[OF adj] have ge: "evutil_timercmp t (last_time base) Ge"
      and lt: "last_time base1 = t" and mc: "monotonic_clock base1 <s 0"
      using Cons.prems by simp_all
    have ih: "sorted_wrt (\<lambda>a b. evutil_timercmp b a Ge) (t # gettime_run cg base1 t rds)"
      using Cons.IH[OF mc, of t] lt by simp
    have "\<forall>x \<in> set (t # gettime_run cg base1 t rds). evutil_timercmp x (last_time base) Ge"
      using ih ge by (auto intro: timercmp_ge_trans)
    then show ?thesis
      unfolding Some gettime_run_reading[OF Cons.prems adj] using ih by simp
  qed
qed

text \<open>
  C1. In fallback mode (\<open>monotonic_clock < 0\<close>) the times that a run of
  \<open>evutil_gettime_monotonic_\<close> queries returns never go backward: whatever readings
  \<open>gettimeofday\<close> delivers (or fails to deliver), the ratchet's starting \<open>last_time\<close>
  followed by the returned times is ordered by \<open>evutil_timercmp(later, earlier, >=)\<close>,
  and every query whose \<open>gettimeofday\<close> succeeded returns a time.
\<close>

theorem emulated_monotonic_clock_forward_only:
  assumes "monotonic_clock base <s 0"
  shows "sorted_wrt (\<lambda>earlier later. evutil_timercmp later earlier Ge)
           (last_time base # gettime_run cg base tp readings)
         \<and> length (gettime_run cg base tp readings)
             = length (filter (\<lambda>r. r \<noteq> None) readings)"
  using assms gettime_run_sorted gettime_run_length by blast

theorem emulated_monotonic_clock_forward_only_witness:
  "monotonic_clock \<lparr>monotonic_clock = - 1,
       adjust_monotonic_clock = \<lparr>tv_sec = 0, tv_usec = 0\<rparr>,
       last_time = \<lparr>tv_sec = 0, tv_usec = 0\<rparr>\<rparr> <s 0
   \<and> sorted_wrt (\<lambda>earlier later. evutil_timercmp later earlier Ge)
         [\<lparr>tv_sec = 0, tv_usec = 0\<rparr>, \<lparr>tv_sec = 10, tv_usec = 0\<rparr>,
          \<lparr>tv_sec = 10, tv_usec = 0\<rparr>, \<lparr>tv_sec = 11, tv_usec = 500000\<rparr>]
   \<and> gettime_run (\<lambda>c. None)
         \<lparr>monotonic_clock = - 1,
          adjust_monotonic_clock = \<lparr>tv_sec = 0, tv_usec = 0\<rparr>,
          last_time = \<lparr>tv_sec = 0, tv_usec = 0\<rparr>\<rparr>
         \<lparr>tv_sec = 0, tv_usec = 0\<rparr>
         [Some \<lparr>tv_sec = 10, tv_usec = 0\<rparr>, Some \<lparr>tv_sec = 5, tv_usec = 0\<rparr>, None,
          Some \<lparr>tv_sec = 6, tv_usec = 500000\<rparr>]
       = [\<lparr>tv_sec = 10, tv_usec = 0\<rparr>, \<lparr>tv_sec = 10, tv_usec = 0\<rparr>,
          \<lparr>tv_sec = 11, tv_usec = 500000\<rparr>]"
proof -
  let ?b = "\<lparr>monotonic_clock = - 1,
       adjust_monotonic_clock = \<lparr>tv_sec = 0, tv_usec = 0\<rparr>,
       last_time = \<lparr>tv_sec = 0, tv_usec = 0\<rparr>\<rparr>"
  let ?rds = "[Some \<lparr>tv_sec = 10, tv_usec = 0\<rparr>, Some \<lparr>tv_sec = 5, tv_usec = 0\<rparr>, None,
          Some \<lparr>tv_sec = 6, tv_usec = 500000\<rparr>]"
  have neg: "monotonic_clock ?b <s 0"
    by (simp add: word_sless_alt)
  have run: "gettime_run (\<lambda>c. None) ?b \<lparr>tv_sec = 0, tv_usec = 0\<rparr> ?rds
       = [\<lparr>tv_sec = 10, tv_usec = 0\<rparr>, \<lparr>tv_sec = 10, tv_usec = 0\<rparr>,
          \<lparr>tv_sec = 11, tv_usec = 500000\<rparr>]"
    by (simp add: evutil_gettime_monotonic_'_def adjust_monotonic_time_def timeradd_def
        timersub_def evutil_timercmp_def word_sless_alt word_sle_eq Let_def)
  from emulated_monotonic_clock_forward_only
         [OF neg, of "\<lambda>c. None" "\<lparr>tv_sec = 0, tv_usec = 0\<rparr>" ?rds]
  have "sorted_wrt (\<lambda>earlier later. evutil_timercmp later earlier Ge)
          (last_time ?b # gettime_run (\<lambda>c. None) ?b \<lparr>tv_sec = 0, tv_usec = 0\<rparr> ?rds)"
    by (rule conjunct1)
  then have "sorted_wrt (\<lambda>earlier later. evutil_timercmp later earlier Ge)
         [\<lparr>tv_sec = 0, tv_usec = 0\<rparr>, \<lparr>tv_sec = 10, tv_usec = 0\<rparr>,
          \<lparr>tv_sec = 10, tv_usec = 0\<rparr>, \<lparr>tv_sec = 11, tv_usec = 500000\<rparr>]"
    unfolding run by simp
  with neg run show ?thesis by (intro conjI)
qed

text \<open>
  C2, as stated, fails: the function has no guard for negative fields, and an interval
  of \<open>-1\<close> seconds converts to \<open>-1000\<close>, which is neither non-negative nor the sentinel.
\<close>

theorem tv_to_msec_negative_counterexample:
  "\<not> (0 \<le>s evutil_tv_to_msec_' \<lparr>tv_sec = - 1, tv_usec = 0\<rparr>
      \<or> evutil_tv_to_msec_' \<lparr>tv_sec = - 1, tv_usec = 0\<rparr> = - 1)"
  by (simp add: evutil_tv_to_msec_'_def MAX_SECONDS_IN_MSEC_LONG_value c_div_def
      word_sle_eq word_sless_alt signed_divide_int_def)

text \<open>
  C2, amended. For every interval with non-negative \<open>tv_sec\<close> and \<open>tv_usec\<close>:
  when \<open>tv_usec > 1000000\<close> or \<open>tv_sec > (LONG_MAX - 999) / 1000\<close> the result is the
  sentinel \<open>-1\<close>; otherwise it is non-negative, is computed without wrap-around, and is
  the interval in milliseconds with a fractional millisecond rounded upward (the least
  number of milliseconds that covers the interval).
\<close>

theorem tv_to_msec_nonnegative_or_sentinel:
  assumes "0 \<le>s tv_sec tv" and "0 \<le>s tv_usec tv"
  shows "if 1000000 <s tv_usec tv \<or> MAX_SECONDS_IN_MSEC_LONG <s tv_sec tv
         then evutil_tv_to_msec_' tv = - 1
         else 0 \<le>s evutil_tv_to_msec_' tv
            \<and> sint (evutil_tv_to_msec_' tv)
                = sint (tv_sec tv) * 1000 + (sint (tv_usec tv) + 999) div 1000
            \<and> sint (tv_sec tv) * 1000000 + sint (tv_usec tv)
                \<le> 1000 * sint (evutil_tv_to_msec_' tv)
            \<and> 1000 * sint (evutil_tv_to_msec_' tv)
                < sint (tv_sec tv) * 1000000 + sint (tv_usec tv) + 1000"
proof (cases "1000000 <s tv_usec tv \<or> MAX_SECONDS_IN_MSEC_LONG <s tv_sec tv")
  case True
  then show ?thesis by (simp add: evutil_tv_to_msec_'_def)
next
  case False
  note r = tv_to_msec_in_range[OF assms False]
  have nn: "0 \<le> sint (tv_sec tv)" "0 \<le> sint (tv_usec tv)"
    using assms by (simp_all add: word_sle_eq)
  then have "0 \<le> sint (evutil_tv_to_msec_' tv)"
    unfolding r by simp
  moreover have "sint (tv_sec tv) * 1000000 + sint (tv_usec tv)
      \<le> 1000 * sint (evutil_tv_to_msec_' tv)"
    unfolding r by simp
  moreover have "1000 * sint (evutil_tv_to_msec_' tv)
      < sint (tv_sec tv) * 1000000 + sint (tv_usec tv) + 1000"
    unfolding r by simp
  ultimately show ?thesis using False r by (simp add: word_sle_eq)
qed

theorem tv_to_msec_nonnegative_or_sentinel_witness:
  "0 \<le>s tv_sec \<lparr>tv_sec = 2, tv_usec = 1500\<rparr> \<and> 0 \<le>s tv_usec \<lparr>tv_sec = 2, tv_usec = 1500\<rparr>
   \<and> \<not> (1000000 <s tv_usec \<lparr>tv_sec = 2, tv_usec = 1500\<rparr>
        \<or> MAX_SECONDS_IN_MSEC_LONG <s tv_sec \<lparr>tv_sec = 2, tv_usec = 1500\<rparr>)
   \<and> sint (evutil_tv_to_msec_' \<lparr>tv_sec = 2, tv_usec = 1500\<rparr>) = 2002
   \<and> evutil_tv_to_msec_' \<lparr>tv_sec = 2, tv_usec = 1000001\<rparr> = - 1"
proof -
  have h: "0 \<le>s tv_sec \<lparr>tv_sec = 2, tv_usec = 1500\<rparr>"
      "0 \<le>s tv_usec \<lparr>tv_sec = 2, tv_usec = 1500\<rparr>"
    and h': "0 \<le>s tv_sec \<lparr>tv_sec = 2, tv_usec = 1000001\<rparr>"
      "0 \<le>s tv_usec \<lparr>tv_sec = 2, tv_usec = 1000001\<rparr>"
    by (simp_all add: word_sle_eq)
  from tv_to_msec_nonnegative_or_sentinel[OF h] tv_to_msec_nonnegative_or_sentinel[OF h']
  show ?thesis
    by (simp add: word_sle_eq word_sless_alt MAX_SECONDS_IN_MSEC_LONG_value)
qed

text \<open>
  C4. Configuring the clock source never fails: for every flags value, every behaviour
  of \<open>clock_gettime\<close> and every timer, the function returns 0 (it does not exit) and
  changes only \<open>monotonic_clock\<close>, and the value it stores is determined exactly:
  \<^item> \<open>CLOCK_MONOTONIC_COARSE\<close> if and only if neither \<open>EV_MONOT_FALLBACK\<close> nor
    \<open>EV_MONOT_PRECISE\<close> is requested and the probe of the coarse clock succeeds;
  \<^item> \<open>CLOCK_MONOTONIC\<close> if and only if \<open>EV_MONOT_FALLBACK\<close> is not requested, the
    coarse clock was not taken (\<open>EV_MONOT_PRECISE\<close> is requested or its probe fails) and
    the probe of \<open>CLOCK_MONOTONIC\<close> succeeds;
  \<^item> \<open>-1\<close> if and only if \<open>EV_MONOT_FALLBACK\<close> is requested or no clock that the
    flags allow to be probed is usable. With \<open>EV_MONOT_PRECISE\<close> the coarse clock is
    never probed, so a failing \<open>CLOCK_MONOTONIC\<close> alone gives \<open>-1\<close> then. In particular
    the fallback flag, or the failure of both probes, always gives \<open>-1\<close>.

  A chosen clock id is one whose probe succeeded, and a later query on the same
  \<open>clock_gettime\<close> returns 0 with that clock's reading; with \<open>-1\<close> a later query takes
  the \<open>gettimeofday\<close> branch and returns the ratcheted reading.
\<close>

theorem configure_monotonic_time_never_fails:
  "\<exists>base1. evutil_configure_monotonic_time_' cg base flags = Inr (0, base1)
      \<and> adjust_monotonic_clock base1 = adjust_monotonic_clock base
      \<and> last_time base1 = last_time base
      \<and> (monotonic_clock base1 = CLOCK_MONOTONIC_COARSE \<longleftrightarrow>
           flags AND EV_MONOT_FALLBACK = 0 \<and> flags AND EV_MONOT_PRECISE = 0
           \<and> cg CLOCK_MONOTONIC_COARSE \<noteq> None)
      \<and> (monotonic_clock base1 = CLOCK_MONOTONIC \<longleftrightarrow>
           flags AND EV_MONOT_FALLBACK = 0
           \<and> (flags AND EV_MONOT_PRECISE \<noteq> 0 \<or> cg CLOCK_MONOTONIC_COARSE = None)
           \<and> cg CLOCK_MONOTONIC \<noteq> None)
      \<and> (monotonic_clock base1 = - 1 \<longleftrightarrow>
           flags AND EV_MONOT_FALLBACK \<noteq> 0
           \<or> (flags AND EV_MONOT_PRECISE \<noteq> 0 \<or> cg CLOCK_MONOTONIC_COARSE = None)
              \<and> cg CLOCK_MONOTONIC = None)
      \<and> (flags AND EV_MONOT_FALLBACK \<noteq> 0
           \<or> cg CLOCK_MONOTONIC_COARSE = None \<and> cg CLOCK_MONOTONIC = None \<longrightarrow>
           monotonic_clock base1 = - 1)
      \<and> (monotonic_clock base1 \<noteq> - 1 \<longrightarrow>
           cg (monotonic_clock base1) \<noteq> None
           \<and> (\<forall>gtod tp. evutil_gettime_monotonic_' gtod cg base1 tp
                = (0, base1, \<lparr>tv_sec = ts_sec (the (cg (monotonic_clock base1))),
                               tv_usec = c_div (ts_nsec (the (cg (monotonic_clock base1)))) 1000\<rparr>)))
      \<and> (monotonic_clock base1 = - 1 \<longrightarrow>
           (\<forall>raw cg1 tp. evutil_gettime_monotonic_' (Some raw) cg1 base1 tp
              = (0, adjust_monotonic_time base1 raw)))"
  by (auto simp add: evutil_configure_monotonic_time_'_def evutil_gettime_monotonic_'_def
      CLOCK_MONOTONIC_def CLOCK_MONOTONIC_COARSE_def Let_def word_sless_alt
      split: prod.split)

theorem configure_monotonic_time_never_fails_witness:
  "evutil_configure_monotonic_time_' (\<lambda>c. Some \<lparr>ts_sec = 7, ts_nsec = 0\<rparr>)
      \<lparr>monotonic_clock = 0,
       adjust_monotonic_clock = \<lparr>tv_sec = 0, tv_usec = 0\<rparr>,
       last_time = \<lparr>tv_sec = 0, tv_usec = 0\<rparr>\<rparr> 0
    = Inr (0, \<lparr>monotonic_clock = CLOCK_MONOTONIC_COARSE,
       adjust_monotonic_clock = \<lparr>tv_sec = 0, tv_usec = 0\<rparr>,
       last_time = \<lparr>tv_sec = 0, tv_usec = 0\<rparr>\<rparr>)
   \<and> evutil_configure_monotonic_time_' (\<lambda>c. Some \<lparr>ts_sec = 7, ts_nsec = 0\<rparr>)
      \<lparr>monotonic_clock = 0,
       adjust_monotonic_clock = \<lparr>tv_sec = 0, tv_usec = 0\<rparr>,
       last_time = \<lparr>tv_sec = 0, tv_usec = 0\<rparr>\<rparr> EV_MONOT_PRECISE
    = Inr (0, \<lparr>monotonic_clock = CLOCK_MONOTONIC,
       adjust_monotonic_clock = \<lparr>tv_sec = 0, tv_usec = 0\<rparr>,
       last_time = \<lparr>tv_sec = 0, tv_usec = 0\<rparr>\<rparr>)
   \<and> evutil_configure_monotonic_time_'
      (\<lambda>c. if c = CLOCK_MONOTONIC_COARSE then Some \<lparr>ts_sec = 7, ts_nsec = 0\<rparr> else None)
      \<lparr>monotonic_clock = 0,
       adjust_monotonic_clock = \<lparr>tv_sec = 0, tv_usec = 0\<rparr>,
       last_time = \<lparr>tv_sec = 0, tv_usec = 0\<rparr>\<rparr> EV_MONOT_PRECISE
    = Inr (0, \<lparr>monotonic_clock = - 1,
       adjust_monotonic_clock = \<lparr>tv_sec = 0, tv_usec = 0\<rparr>,
       last_time = \<lparr>tv_sec = 0, tv_usec = 0\<rparr>\<rparr>)
   \<and> evutil_configure_monotonic_time_' (\<lambda>c. Some \<lparr>ts_sec = 7, ts_nsec = 0\<rparr>)
      \<lparr>monotonic_clock = 0,
       adjust_monotonic_clock = \<lparr>tv_sec = 0, tv_usec = 0\<rparr>,
       last_time = \<lparr>tv_sec = 0, tv_usec = 0\<rparr>\<rparr> EV_MONOT_FALLBACK
    = Inr (0, \<lparr>monotonic_clock = - 1,
       adjust_monotonic_clock = \<lparr>tv_sec = 0, tv_usec = 0\<rparr>,
       last_time = \<lparr>tv_sec = 0, tv_usec = 0\<rparr>\<rparr>)"
  using configure_monotonic_time_never_fails
      [of "\<lambda>c. Some \<lparr>ts_sec = 7, ts_nsec = 0\<rparr>"
          "\<lparr>monotonic_clock = 0,
            adjust_monotonic_clock = \<lparr>tv_sec = 0, tv_usec = 0\<rparr>,
            last_time = \<lparr>tv_sec = 0, tv_usec = 0\<rparr>\<rparr>" 0]
    configure_monotonic_time_never_fails
      [of "\<lambda>c. Some \<lparr>ts_sec = 7, ts_nsec = 0\<rparr>"
          "\<lparr>monotonic_clock = 0,
            adjust_monotonic_clock = \<lparr>tv_sec = 0, tv_usec = 0\<rparr>,
            last_time = \<lparr>tv_sec = 0, tv_usec = 0\<rparr>\<rparr>" EV_MONOT_PRECISE]
    configure_monotonic_time_never_fails
      [of "\<lambda>c. if c = CLOCK_MONOTONIC_COARSE then Some \<lparr>ts_sec = 7, ts_nsec = 0\<rparr> else None"
          "\<lparr>monotonic_clock = 0,
            adjust_monotonic_clock = \<lparr>tv_sec = 0, tv_usec = 0\<rparr>,
            last_time = \<lparr>tv_sec = 0, tv_usec = 0\<rparr>\<rparr>" EV_MONOT_PRECISE]
    configure_monotonic_time_never_fails
      [of "\<lambda>c. Some \<lparr>ts_sec = 7, ts_nsec = 0\<rparr>"
          "\<lparr>monotonic_clock = 0,
            adjust_monotonic_clock = \<lparr>tv_sec = 0, tv_usec = 0\<rparr>,
            last_time = \<lparr>tv_sec = 0, tv_usec = 0\<rparr>\<rparr>" EV_MONOT_FALLBACK]
  by (simp add: evutil_configure_monotonic_time_'_def CLOCK_MONOTONIC_def
      CLOCK_MONOTONIC_COARSE_def EV_MONOT_FALLBACK_def EV_MONOT_PRECISE_def word_sless_alt)

section \<open>Properties of the descriptor functions\<close>

subsection \<open>The descriptor table\<close>

lemma first_free_le: "first_free t \<le> length t"
  by (induction t rule: first_free.induct) simp_all

lemma first_free_None: "first_free t < length t \<Longrightarrow> t ! first_free t = None"
  by (induction t rule: first_free.induct) simp_all

lemma lookup_fd_first_free: "lookup_fd t (int (first_free t)) = None"
  by (simp add: lookup_fd_def first_free_None)

lemma lookup_fd_update:
  "0 \<le> fd \<Longrightarrow> nat fd < length t \<Longrightarrow> lookup_fd (t[nat fd := v]) = (lookup_fd t)(fd := v)"
  by (auto simp: lookup_fd_def fun_eq_iff nth_list_update)

lemma lookup_fd_append:
  "lookup_fd (t @ [v]) = (lookup_fd t)(int (length t) := v)"
  by (auto simp: lookup_fd_def fun_eq_iff nth_append)

lemma lookup_fd_Some_range: "lookup_fd t fd = Some e \<Longrightarrow> 0 \<le> fd \<and> nat fd < length t"
  by (auto simp: lookup_fd_def split: if_splits)

lemma lookup_fd_update_open:
  "lookup_fd t fd = Some e \<Longrightarrow> lookup_fd (t[nat fd := v]) = (lookup_fd t)(fd := v)"
  using lookup_fd_Some_range lookup_fd_update by blast

lemma alloc_fd_spec:
  assumes "alloc_fd e t = (i, t1)"
  shows "lookup_fd t i = None \<and> lookup_fd t1 = (lookup_fd t)(i \<mapsto> e)"
proof (cases "first_free t < length t")
  case True
  with assms lookup_fd_update[of "int (first_free t)" t "Some e"] show ?thesis
    by (auto simp: alloc_fd_def Let_def lookup_fd_first_free)
next
  case False
  then have "first_free t = length t" using first_free_le[of t] by simp
  with assms lookup_fd_first_free[of t] show ?thesis
    by (auto simp: alloc_fd_def Let_def lookup_fd_append)
qed

lemma next_fault_fdt: "next_fault k = (f, k1) \<Longrightarrow> fdt k1 = fdt k"
  by (auto simp: next_fault_def split: list.splits)

text \<open>Two descriptors created one after the other.\<close>

lemma alloc_fd_pair:
  assumes a: "alloc_fd ea t = (a, t1)" and b: "alloc_fd eb t1 = (b, t2)"
  shows "a \<noteq> b \<and> lookup_fd t a = None \<and> lookup_fd t b = None \<and>
         lookup_fd t2 = (lookup_fd t)(a \<mapsto> ea, b \<mapsto> eb)"
proof -
  note sa = alloc_fd_spec[OF a] and sb = alloc_fd_spec[OF b]
  have ne: "a \<noteq> b" using sa sb by auto
  with sa sb show ?thesis by (auto split: if_splits)
qed

subsection \<open>Flag words\<close>

lemma and_or_sub: "(x AND (d OR n)) AND n = x AND (n::int)"
  by (auto simp: bit_eq_iff bit_simps)

lemma or_and_distrib_int: "(a OR b) AND c = (a AND c) OR (b AND (c::int))"
  by (auto simp: bit_eq_iff bit_simps)

lemma SETFL_MASK_nonneg: "0 \<le> SETFL_MASK"
  by (simp add: SETFL_MASK_def O_APPEND_def O_NONBLOCK_def O_ASYNC_def O_DIRECT_def
      O_NOATIME_def)

lemma O_NONBLOCK_in_mask: "O_NONBLOCK AND SETFL_MASK = O_NONBLOCK"
  by (simp add: SETFL_MASK_def O_APPEND_def O_NONBLOCK_def O_ASYNC_def O_DIRECT_def
      O_NOATIME_def)

lemma setfl_word_nonneg: "0 \<le> (int f AND NOT SETFL_MASK) OR (arg AND SETFL_MASK)"
  using SETFL_MASK_nonneg by simp

lemma setfl_add_flag:
  assumes "n AND m = (n::int)"
  shows "(f AND NOT m) OR ((f OR n) AND m) = f OR n"
proof -
  have "\<And>i. bit n i \<Longrightarrow> bit m i"
    using assms by (metis bit_and_iff)
  then show ?thesis
    by (auto simp: bit_eq_iff bit_simps)
qed

lemma setfl_has_flag:
  assumes "n AND m = (n::int)"
  shows "((f AND NOT m) OR ((g OR n) AND m)) AND n = n"
proof -
  have "\<And>i. bit n i \<Longrightarrow> bit m i"
    using assms by (metis bit_and_iff)
  then show ?thesis
    by (auto simp: bit_eq_iff bit_simps)
qed

subsection \<open>The system calls\<close>

lemma O_NONBLOCK_bit: "(O_NONBLOCK OR O_CLOEXEC) AND O_NONBLOCK \<noteq> 0"
    "(O_NONBLOCK OR O_CLOEXEC) AND O_CLOEXEC \<noteq> 0"
    "(O_NONBLOCK OR O_CLOEXEC) AND NOT (O_CLOEXEC OR O_DIRECT OR O_NONBLOCK) = 0"
  by (simp_all add: O_NONBLOCK_def O_CLOEXEC_def O_DIRECT_def)

lemma is_nonblocking_iff:
  "is_nonblocking k fd \<longleftrightarrow>
     (\<exists>e. lookup_fd (fdt k) fd = Some e \<and> int (status_flags e) AND O_NONBLOCK \<noteq> 0)"
  by (auto simp: is_nonblocking_def fcntl_GETFL_def O_NONBLOCK_def split: option.splits)

lemma is_cloexec_iff:
  "is_cloexec k fd \<longleftrightarrow> (\<exists>e. lookup_fd (fdt k) fd = Some e \<and> cloexec e)"
  by (auto simp: is_cloexec_def fcntl_GETFD_def FD_CLOEXEC_def split: option.splits)

lemma pipe2_status_nonblocking:
  "int (nat (a OR ((O_NONBLOCK OR O_CLOEXEC) AND (O_DIRECT OR O_NONBLOCK)))) AND O_NONBLOCK \<noteq> 0"
  if "0 \<le> a" for a :: int
proof -
  have "((O_NONBLOCK OR O_CLOEXEC) AND (O_DIRECT OR O_NONBLOCK)) = O_NONBLOCK"
    by (simp add: O_NONBLOCK_def O_CLOEXEC_def O_DIRECT_def)
  moreover have "(a OR O_NONBLOCK) AND O_NONBLOCK = O_NONBLOCK"
    by (auto simp: bit_eq_iff bit_simps)
  moreover have "0 \<le> a OR O_NONBLOCK" using that by (simp add: O_NONBLOCK_def)
  ultimately show ?thesis by (simp add: O_NONBLOCK_def)
qed

lemma sys_pipe2_spec:
  assumes "sys_pipe2 fd (O_NONBLOCK OR O_CLOEXEC) k = (r, fd1, k1)"
  shows "(r = - 1 \<and> fd1 = fd \<and> fdt k1 = fdt k) \<or>
         (r = 0 \<and> fst fd1 \<noteq> snd fd1 \<and>
          lookup_fd (fdt k) (fst fd1) = None \<and> lookup_fd (fdt k) (snd fd1) = None \<and>
          (\<exists>ea eb. lookup_fd (fdt k1) = (lookup_fd (fdt k))(fst fd1 \<mapsto> ea, snd fd1 \<mapsto> eb)) \<and>
          is_nonblocking k1 (fst fd1) \<and> is_nonblocking k1 (snd fd1) \<and>
          is_cloexec k1 (fst fd1) \<and> is_cloexec k1 (snd fd1))"
proof -
  obtain failed k' where nf: "next_fault k = (failed, k')" by (cases "next_fault k")
  note t = next_fault_fdt[OF nf]
  show ?thesis
  proof (cases failed)
    case True
    with assms nf t O_NONBLOCK_bit show ?thesis by (simp add: sys_pipe2_def)
  next
    case False
    define st where "st = (O_NONBLOCK OR O_CLOEXEC) AND (O_DIRECT OR O_NONBLOCK)"
    define ea where "ea = \<lparr>status_flags = nat (O_RDONLY OR st), cloexec = True\<rparr>"
    define eb where "eb = \<lparr>status_flags = nat (O_WRONLY OR st), cloexec = True\<rparr>"
    obtain a t1 where a: "alloc_fd ea (fdt k) = (a, t1)" by (cases "alloc_fd ea (fdt k)")
    obtain b t2 where b: "alloc_fd eb t1 = (b, t2)" by (cases "alloc_fd eb t1")
    have res: "r = 0" "fd1 = (a, b)" "fdt k1 = t2"
      using assms nf False a b t O_NONBLOCK_bit
      by (auto simp: sys_pipe2_def Let_def st_def ea_def eb_def)
    note p = alloc_fd_pair[OF a b]
    have nb: "int (status_flags ea) AND O_NONBLOCK \<noteq> 0" "int (status_flags eb) AND O_NONBLOCK \<noteq> 0"
      unfolding ea_def eb_def st_def
      using pipe2_status_nonblocking[of O_RDONLY] pipe2_status_nonblocking[of O_WRONLY]
      by (simp_all add: O_RDONLY_def O_WRONLY_def)
    have "is_nonblocking k1 a" "is_nonblocking k1 b" "is_cloexec k1 a" "is_cloexec k1 b"
      using p nb res by (auto simp: is_nonblocking_iff is_cloexec_iff ea_def eb_def)
    with p res show ?thesis by auto
  qed
qed

lemma sys_pipe_spec:
  assumes "sys_pipe fd k = (r, fd1, k1)"
  shows "(r = - 1 \<and> fd1 = fd \<and> fdt k1 = fdt k) \<or>
         (r = 0 \<and> fst fd1 \<noteq> snd fd1 \<and>
          lookup_fd (fdt k) (fst fd1) = None \<and> lookup_fd (fdt k) (snd fd1) = None \<and>
          (\<exists>ea eb. lookup_fd (fdt k1) = (lookup_fd (fdt k))(fst fd1 \<mapsto> ea, snd fd1 \<mapsto> eb)))"
proof -
  obtain failed k' where nf: "next_fault k = (failed, k')" by (cases "next_fault k")
  note t = next_fault_fdt[OF nf]
  show ?thesis
  proof (cases failed)
    case True
    with assms nf t show ?thesis by (simp add: sys_pipe_def sys_pipe2_def)
  next
    case False
    define ea where "ea = \<lparr>status_flags = nat O_RDONLY, cloexec = False\<rparr>"
    define eb where "eb = \<lparr>status_flags = nat O_WRONLY, cloexec = False\<rparr>"
    obtain a t1 where a: "alloc_fd ea (fdt k) = (a, t1)" by (cases "alloc_fd ea (fdt k)")
    obtain b t2 where b: "alloc_fd eb t1 = (b, t2)" by (cases "alloc_fd eb t1")
    have res: "r = 0" "fd1 = (a, b)" "fdt k1 = t2"
      using assms nf False a b t
      by (auto simp: sys_pipe_def sys_pipe2_def Let_def ea_def eb_def)
    from alloc_fd_pair[OF a b] res show ?thesis by auto
  qed
qed

lemma sys_socketpair_spec:
  assumes "sys_socketpair fd k = (r, fd1, k1)"
  shows "(r = - 1 \<and> fd1 = fd \<and> fdt k1 = fdt k) \<or>
         (r = 0 \<and> fst fd1 \<noteq> snd fd1 \<and>
          lookup_fd (fdt k) (fst fd1) = None \<and> lookup_fd (fdt k) (snd fd1) = None \<and>
          (\<exists>ea eb. lookup_fd (fdt k1) = (lookup_fd (fdt k))(fst fd1 \<mapsto> ea, snd fd1 \<mapsto> eb)))"
proof -
  obtain failed k' where nf: "next_fault k = (failed, k')" by (cases "next_fault k")
  note t = next_fault_fdt[OF nf]
  show ?thesis
  proof (cases failed)
    case True
    with assms nf t show ?thesis by (simp add: sys_socketpair_def)
  next
    case False
    define ea where "ea = \<lparr>status_flags = nat O_RDWR, cloexec = False\<rparr>"
    obtain a t1 where a: "alloc_fd ea (fdt k) = (a, t1)" by (cases "alloc_fd ea (fdt k)")
    obtain b t2 where b: "alloc_fd ea t1 = (b, t2)" by (cases "alloc_fd ea t1")
    have res: "r = 0" "fd1 = (a, b)" "fdt k1 = t2"
      using assms nf False a b t
      by (auto simp: sys_socketpair_def Let_def ea_def)
    from alloc_fd_pair[OF a b] res show ?thesis by auto
  qed
qed

lemma fcntl_SETFL_spec:
  assumes "fcntl_SETFL fd arg k = (r, k1)"
  shows "(r = - 1 \<and> fdt k1 = fdt k) \<or>
         (r = 0 \<and> (\<exists>e. lookup_fd (fdt k) fd = Some e \<and>
            lookup_fd (fdt k1) = (lookup_fd (fdt k))(fd \<mapsto> e\<lparr>status_flags :=
               nat ((int (status_flags e) AND NOT SETFL_MASK) OR (arg AND SETFL_MASK))\<rparr>)))"
proof (cases "lookup_fd (fdt k) fd")
  case None
  with assms show ?thesis by (simp add: fcntl_SETFL_def)
next
  case (Some e)
  obtain failed k' where nf: "next_fault k = (failed, k')" by (cases "next_fault k")
  note t = next_fault_fdt[OF nf]
  from assms Some nf t lookup_fd_update_open[OF Some] show ?thesis
    by (auto simp: fcntl_SETFL_def split: if_splits)
qed

lemma fcntl_SETFD_spec:
  assumes "fcntl_SETFD fd arg k = (r, k1)"
  shows "(r = - 1 \<and> fdt k1 = fdt k) \<or>
         (r = 0 \<and> (\<exists>e. lookup_fd (fdt k) fd = Some e \<and>
            lookup_fd (fdt k1) = (lookup_fd (fdt k))(fd \<mapsto> e\<lparr>cloexec :=
               (arg AND FD_CLOEXEC \<noteq> 0)\<rparr>)))"
proof (cases "lookup_fd (fdt k) fd")
  case None
  with assms show ?thesis by (simp add: fcntl_SETFD_def)
next
  case (Some e)
  obtain failed k' where nf: "next_fault k = (failed, k')" by (cases "next_fault k")
  note t = next_fault_fdt[OF nf]
  from assms Some nf t lookup_fd_update_open[OF Some] show ?thesis
    by (auto simp: fcntl_SETFD_def split: if_splits)
qed

lemma sys_close_spec:
  "lookup_fd (fdt (snd (sys_close fd k))) = (lookup_fd (fdt k))(fd := None)"
proof (cases "lookup_fd (fdt k) fd")
  case None
  then show ?thesis by (auto simp: sys_close_def)
next
  case (Some e)
  obtain failed k' where nf: "next_fault k = (failed, k')" by (cases "next_fault k")
  note t = next_fault_fdt[OF nf]
  from Some nf t lookup_fd_update_open[OF Some] show ?thesis
    by (auto simp: sys_close_def)
qed

subsection \<open>The fast setters\<close>

lemma setfl_nonblock_word:
  "int (nat ((int f AND NOT SETFL_MASK) OR (O_NONBLOCK AND SETFL_MASK))) AND O_NONBLOCK \<noteq> 0"
proof -
  have "((int f AND NOT SETFL_MASK) OR ((0 OR O_NONBLOCK) AND SETFL_MASK)) AND O_NONBLOCK
          = O_NONBLOCK"
    by (rule setfl_has_flag[OF O_NONBLOCK_in_mask])
  moreover have "int (nat ((int f AND NOT SETFL_MASK) OR (O_NONBLOCK AND SETFL_MASK)))
      = (int f AND NOT SETFL_MASK) OR (O_NONBLOCK AND SETFL_MASK)"
    using setfl_word_nonneg[of f O_NONBLOCK] by (rule nat_0_le)
  ultimately show ?thesis by (simp add: O_NONBLOCK_def)
qed

lemma fast_nonblocking_spec:
  assumes "evutil_fast_socket_nonblocking fd k = (r, k1)"
  shows "(r = - 1 \<and> fdt k1 = fdt k) \<or>
         (r = 0 \<and>
          (\<exists>e e1. lookup_fd (fdt k) fd = Some e \<and> cloexec e1 = cloexec e \<and>
             int (status_flags e1) AND O_NONBLOCK \<noteq> 0 \<and>
             lookup_fd (fdt k1) = (lookup_fd (fdt k))(fd \<mapsto> e1)))"
proof -
  obtain r' k' where s: "fcntl_SETFL fd O_NONBLOCK k = (r', k')"
    by (cases "fcntl_SETFL fd O_NONBLOCK k")
  from fcntl_SETFL_spec[OF s] consider
    (failed) "r' = - 1" "fdt k' = fdt k"
    | (ok) e where "r' = 0" "lookup_fd (fdt k) fd = Some e"
        "lookup_fd (fdt k') = (lookup_fd (fdt k))(fd \<mapsto> e\<lparr>status_flags :=
           nat ((int (status_flags e) AND NOT SETFL_MASK) OR (O_NONBLOCK AND SETFL_MASK))\<rparr>)"
    by blast
  then show ?thesis
  proof cases
    case failed
    with assms s show ?thesis by (simp add: evutil_fast_socket_nonblocking_def)
  next
    case ok
    define e1 where "e1 = e\<lparr>status_flags :=
           nat ((int (status_flags e) AND NOT SETFL_MASK) OR (O_NONBLOCK AND SETFL_MASK))\<rparr>"
    have "cloexec e1 = cloexec e" "int (status_flags e1) AND O_NONBLOCK \<noteq> 0"
      using setfl_nonblock_word[of "status_flags e"] by (simp_all add: e1_def)
    moreover have "r = 0" "k1 = k'"
      using assms s ok(1) by (simp_all add: evutil_fast_socket_nonblocking_def)
    ultimately show ?thesis using ok(2,3) unfolding e1_def [symmetric] by blast
  qed
qed

lemma fast_closeonexec_spec:
  assumes "evutil_fast_socket_closeonexec fd k = (r, k1)"
  shows "(r = - 1 \<and> fdt k1 = fdt k) \<or>
         (r = 0 \<and>
          (\<exists>e e1. lookup_fd (fdt k) fd = Some e \<and> status_flags e1 = status_flags e \<and>
             cloexec e1 \<and>
             lookup_fd (fdt k1) = (lookup_fd (fdt k))(fd \<mapsto> e1)))"
proof -
  obtain r' k' where s: "fcntl_SETFD fd FD_CLOEXEC k = (r', k')"
    by (cases "fcntl_SETFD fd FD_CLOEXEC k")
  from fcntl_SETFD_spec[OF s] consider
    (failed) "r' = - 1" "fdt k' = fdt k"
    | (ok) e where "r' = 0" "lookup_fd (fdt k) fd = Some e"
        "lookup_fd (fdt k') = (lookup_fd (fdt k))(fd \<mapsto> e\<lparr>cloexec :=
           (FD_CLOEXEC AND FD_CLOEXEC \<noteq> 0)\<rparr>)"
    by blast
  then show ?thesis
  proof cases
    case failed
    with assms s show ?thesis by (simp add: evutil_fast_socket_closeonexec_def)
  next
    case ok
    define e1 where "e1 = e\<lparr>cloexec := (FD_CLOEXEC AND FD_CLOEXEC \<noteq> 0)\<rparr>"
    have "status_flags e1 = status_flags e" "cloexec e1"
      by (simp_all add: e1_def FD_CLOEXEC_def)
    moreover have "r = 0" "k1 = k'"
      using assms s ok(1) by (simp_all add: evutil_fast_socket_closeonexec_def)
    ultimately show ?thesis using ok(2,3) unfolding e1_def [symmetric] by blast
  qed
qed


lemma keeps_refl: "fdt k1 = fdt k \<Longrightarrow> keeps k k1"
  by (simp add: keeps_def is_open_def is_nonblocking_iff is_cloexec_iff)

lemma keeps_trans: "keeps k k1 \<Longrightarrow> keeps k1 k2 \<Longrightarrow> keeps k k2"
  by (simp add: keeps_def)

lemma fast_nonblocking_keeps:
  assumes "evutil_fast_socket_nonblocking fd k = (r, k1)"
  shows "keeps k k1 \<and> (r = 0 \<or> r = - 1) \<and> (r = 0 \<longrightarrow> is_nonblocking k1 fd)"
  using fast_nonblocking_spec[OF assms]
  by (auto simp: keeps_def is_open_def is_nonblocking_iff is_cloexec_iff split: if_splits)

lemma fast_closeonexec_keeps:
  assumes "evutil_fast_socket_closeonexec fd k = (r, k1)"
  shows "keeps k k1 \<and> (r = 0 \<or> r = - 1) \<and> (r = 0 \<longrightarrow> is_cloexec k1 fd)"
  using fast_closeonexec_spec[OF assms]
  by (auto simp: keeps_def is_open_def is_nonblocking_iff is_cloexec_iff split: if_splits)

lemma fast_flags_failed_spec:
  assumes "fast_flags_failed fd k = (failed, k1)"
  shows "keeps k k1 \<and>
         (\<not> failed \<longrightarrow> is_nonblocking k1 (fst fd) \<and> is_nonblocking k1 (snd fd) \<and>
            is_cloexec k1 (fst fd) \<and> is_cloexec k1 (snd fd))"
proof -
  obtain r1 k1' where 1: "evutil_fast_socket_nonblocking (fst fd) k = (r1, k1')"
    by (cases "evutil_fast_socket_nonblocking (fst fd) k")
  obtain r2 k2' where 2: "evutil_fast_socket_nonblocking (snd fd) k1' = (r2, k2')"
    by (cases "evutil_fast_socket_nonblocking (snd fd) k1'")
  obtain r3 k3' where 3: "evutil_fast_socket_closeonexec (fst fd) k2' = (r3, k3')"
    by (cases "evutil_fast_socket_closeonexec (fst fd) k2'")
  obtain r4 k4' where 4: "evutil_fast_socket_closeonexec (snd fd) k3' = (r4, k4')"
    by (cases "evutil_fast_socket_closeonexec (snd fd) k3'")
  note s1 = fast_nonblocking_keeps[OF 1] and s2 = fast_nonblocking_keeps[OF 2]
    and s3 = fast_closeonexec_keeps[OF 3] and s4 = fast_closeonexec_keeps[OF 4]
  have k12: "keeps k k2'" using s1 s2 keeps_trans by blast
  have k13: "keeps k k3'" using k12 s3 keeps_trans by blast
  have k14: "keeps k k4'" using k13 s4 keeps_trans by blast
  show ?thesis
  proof (cases "r1 < 0")
    case True
    with assms 1 s1 show ?thesis by (simp add: fast_flags_failed_def)
  next
    case n1: False
    show ?thesis
    proof (cases "r2 < 0")
      case True
      with assms 1 2 n1 k12 show ?thesis by (simp add: fast_flags_failed_def)
    next
      case n2: False
      show ?thesis
      proof (cases "r3 < 0")
        case True
        with assms 1 2 3 n1 n2 k13 show ?thesis by (simp add: fast_flags_failed_def)
      next
        case n3: False
        have res: "failed = (r4 < 0)" "k1 = k4'"
          using assms 1 2 3 4 n1 n2 n3 by (simp_all add: fast_flags_failed_def)
        have "r1 = 0" "r2 = 0" "r3 = 0" using n1 n2 n3 s1 s2 s3 by auto
        then have a: "is_nonblocking k1' (fst fd)" "is_nonblocking k2' (snd fd)"
            "is_cloexec k3' (fst fd)"
          using s1 s2 s3 by simp_all
        have "is_nonblocking k4' (fst fd)" "is_nonblocking k4' (snd fd)"
            "is_cloexec k4' (fst fd)"
          using a s2 s3 s4 by (simp_all add: keeps_def)
        moreover have "\<not> r4 < 0 \<longrightarrow> is_cloexec k4' (snd fd)" using s4 by auto
        ultimately show ?thesis using res k14 by simp
      qed
    qed
  qed
qed

subsection \<open>Touched descriptors\<close>

lemma touches_only_refl: "fdt k1 = fdt k \<Longrightarrow> touches_only S k k1"
  by (simp add: touches_only_def)

lemma touches_only_trans:
  "touches_only S k k1 \<Longrightarrow> touches_only T k1 k2 \<Longrightarrow> touches_only (S \<union> T) k k2"
  by (simp add: touches_only_def)

lemma touches_only_mono: "touches_only S k k1 \<Longrightarrow> S \<subseteq> T \<Longrightarrow> touches_only T k k1"
  by (auto simp: touches_only_def)

lemma fast_nonblocking_touches:
  assumes "evutil_fast_socket_nonblocking fd k = (r, k1)"
  shows "touches_only {fd} k k1"
  using fast_nonblocking_spec[OF assms] by (auto simp: touches_only_def)

lemma fast_closeonexec_touches:
  assumes "evutil_fast_socket_closeonexec fd k = (r, k1)"
  shows "touches_only {fd} k k1"
  using fast_closeonexec_spec[OF assms] by (auto simp: touches_only_def)

lemma fast_flags_failed_touches:
  assumes "fast_flags_failed fd k = (failed, k1)"
  shows "touches_only {fst fd, snd fd} k k1"
proof -
  obtain r1 k1' where 1: "evutil_fast_socket_nonblocking (fst fd) k = (r1, k1')"
    by (cases "evutil_fast_socket_nonblocking (fst fd) k")
  obtain r2 k2' where 2: "evutil_fast_socket_nonblocking (snd fd) k1' = (r2, k2')"
    by (cases "evutil_fast_socket_nonblocking (snd fd) k1'")
  obtain r3 k3' where 3: "evutil_fast_socket_closeonexec (fst fd) k2' = (r3, k3')"
    by (cases "evutil_fast_socket_closeonexec (fst fd) k2'")
  obtain r4 k4' where 4: "evutil_fast_socket_closeonexec (snd fd) k3' = (r4, k4')"
    by (cases "evutil_fast_socket_closeonexec (snd fd) k3'")
  let ?S = "{fst fd, snd fd}"
  have t1: "touches_only ?S k k1'"
    using fast_nonblocking_touches[OF 1] by (rule touches_only_mono) simp
  have t2: "touches_only ?S k k2'"
    using touches_only_trans[OF t1 fast_nonblocking_touches[OF 2]]
    by (rule touches_only_mono) auto
  have t3: "touches_only ?S k k3'"
    using touches_only_trans[OF t2 fast_closeonexec_touches[OF 3]]
    by (rule touches_only_mono) auto
  have t4: "touches_only ?S k k4'"
    using touches_only_trans[OF t3 fast_closeonexec_touches[OF 4]]
    by (rule touches_only_mono) auto
  have "k1 = k1' \<or> k1 = k2' \<or> k1 = k3' \<or> k1 = k4'"
    using assms 1 2 3 4 by (auto simp: fast_flags_failed_def split: if_splits)
  with t1 t2 t3 t4 show ?thesis by blast
qed

subsection \<open>The notification pipe\<close>

lemma close_pair_restores:
  assumes new: "lookup_fd (fdt k) (fst fd) = None" "lookup_fd (fdt k) (snd fd) = None"
    and made: "lookup_fd (fdt k1) = (lookup_fd (fdt k))(fst fd \<mapsto> ea, snd fd \<mapsto> eb)"
    and kept: "touches_only {fst fd, snd fd} k1 k2"
  shows "lookup_fd (fdt (snd (sys_close (snd fd) (snd (sys_close (fst fd) k2))))) x
           = lookup_fd (fdt k) x"
proof -
  have "lookup_fd (fdt (snd (sys_close (snd fd) (snd (sys_close (fst fd) k2))))) x
      = ((lookup_fd (fdt k2))(fst fd := None, snd fd := None)) x"
    by (simp only: sys_close_spec)
  also have "\<dots> = lookup_fd (fdt k) x"
  proof (cases "x = fst fd \<or> x = snd fd")
    case True
    with new show ?thesis by auto
  next
    case False
    with kept made show ?thesis by (simp add: touches_only_def)
  qed
  finally show ?thesis .
qed

lemma created_pair_result:
  assumes fresh: "lookup_fd (fdt k) (fst fd) = None" "lookup_fd (fdt k) (snd fd) = None"
    and made: "lookup_fd (fdt k1) = (lookup_fd (fdt k))(fst fd \<mapsto> ea, snd fd \<mapsto> eb)"
    and su: "fast_flags_failed fd k1 = (failed, k2)"
  shows "if failed
         then \<forall>x. lookup_fd (fdt (snd (sys_close (snd fd) (snd (sys_close (fst fd) k2))))) x
                   = lookup_fd (fdt k) x
         else is_nonblocking k2 (fst fd) \<and> is_nonblocking k2 (snd fd) \<and>
              is_cloexec k2 (fst fd) \<and> is_cloexec k2 (snd fd) \<and>
              touches_only {fst fd, snd fd} k k2"
proof -
  note t = fast_flags_failed_touches[OF su]
  have "touches_only {fst fd, snd fd} k k1"
    using made by (simp add: touches_only_def)
  from touches_only_trans[OF this t] have "touches_only {fst fd, snd fd} k k2"
    by (rule touches_only_mono) auto
  with fast_flags_failed_spec[OF su] close_pair_restores[OF fresh made t]
  show ?thesis by simp
qed

text \<open>
  C3. Whenever \<open>evutil_make_internal_pipe_\<close> returns 0, \<open>fd[0]\<close> and \<open>fd[1]\<close> are two
  different descriptors that were not open before and are open now, both with
  \<open>O_NONBLOCK\<close> and \<open>FD_CLOEXEC\<close> set, and no other descriptor has changed. Whenever it
  returns \<open>-1\<close> (it returns nothing else), also after a part of the flag setup has
  succeeded, \<open>fd[0]\<close> and \<open>fd[1]\<close> are \<open>-1\<close> and the descriptor table is as it was before
  the call: every descriptor the function created has been closed.
\<close>

theorem internal_pipe_flags_or_nothing:
  assumes "evutil_make_internal_pipe_' fd0 k0 = (r, fd, k)"
  shows "(r = 0 \<or> r = - 1)
    \<and> (r = 0 \<longrightarrow>
          fst fd \<noteq> snd fd \<and> \<not> is_open k0 (fst fd) \<and> \<not> is_open k0 (snd fd)
        \<and> is_open k (fst fd) \<and> is_open k (snd fd)
        \<and> is_nonblocking k (fst fd) \<and> is_nonblocking k (snd fd)
        \<and> is_cloexec k (fst fd) \<and> is_cloexec k (snd fd)
        \<and> touches_only {fst fd, snd fd} k0 k)
    \<and> (r = - 1 \<longrightarrow>
          fd = (- 1, - 1) \<and> (\<forall>x. lookup_fd (fdt k) x = lookup_fd (fdt k0) x))"
proof -
  obtain r1 fd1 k1 where p2: "sys_pipe2 fd0 (O_NONBLOCK OR O_CLOEXEC) k0 = (r1, fd1, k1)"
    by (cases "sys_pipe2 fd0 (O_NONBLOCK OR O_CLOEXEC) k0")
  obtain r2 fd2 k2 where p: "sys_pipe fd1 k1 = (r2, fd2, k2)"
    by (cases "sys_pipe fd1 k1")
  obtain r3 fd3 k3 where sp: "sys_socketpair fd2 k2 = (r3, fd3, k3)"
    by (cases "sys_socketpair fd2 k2")
  obtain f2 k2' where ff2: "fast_flags_failed fd2 k2 = (f2, k2')"
    by (cases "fast_flags_failed fd2 k2")
  obtain f3 k3' where ff3: "fast_flags_failed fd3 k3 = (f3, k3')"
    by (cases "fast_flags_failed fd3 k3")
  have open_if: "is_nonblocking k x \<Longrightarrow> is_open k x" for k x
    by (auto simp: is_nonblocking_iff is_open_def)
  show ?thesis
  proof (cases "r1 = 0")
    case True
    then have res: "r = 0" "fd = fd1" "k = k1"
      using assms p2 by (auto simp: evutil_make_internal_pipe_'_def)
    from sys_pipe2_spec[OF p2] True have "is_open k1 (fst fd1)" "is_open k1 (snd fd1)"
      by (simp_all add: open_if)
    with sys_pipe2_spec[OF p2] True show ?thesis
      unfolding res by (auto simp: is_open_def touches_only_def)
  next
    case f1: False
    with sys_pipe2_spec[OF p2] have same1: "fdt k1 = fdt k0" by auto
    show ?thesis
    proof (cases "r2 = 0")
      case True
      with sys_pipe_spec[OF p] obtain ea eb where
        c: "fst fd2 \<noteq> snd fd2" "lookup_fd (fdt k1) (fst fd2) = None"
          "lookup_fd (fdt k1) (snd fd2) = None"
          "lookup_fd (fdt k2) = (lookup_fd (fdt k1))(fst fd2 \<mapsto> ea, snd fd2 \<mapsto> eb)"
        by auto
      note cr = created_pair_result[OF c(2,3,4) ff2]
      show ?thesis
      proof (cases f2)
        case True
        then have res: "r = - 1" "fd = (- 1, - 1)"
            "k = snd (sys_close (snd fd2) (snd (sys_close (fst fd2) k2')))"
          using assms p2 p f1 \<open>r2 = 0\<close> ff2
          by (auto simp: evutil_make_internal_pipe_'_def Let_def)
        from cr True show ?thesis unfolding res by (simp add: same1)
      next
        case False
        then have res: "r = 0" "fd = fd2" "k = k2'"
          using assms p2 p f1 \<open>r2 = 0\<close> ff2
          by (auto simp: evutil_make_internal_pipe_'_def Let_def)
        from cr False have "is_open k2' (fst fd2)" "is_open k2' (snd fd2)"
          by (simp_all add: open_if)
        with cr False c show ?thesis
          unfolding res by (auto simp: same1 is_open_def touches_only_def)
      qed
    next
      case f2': False
      with sys_pipe_spec[OF p] have same2: "fdt k2 = fdt k0" using same1 by auto
      show ?thesis
      proof (cases "r3 = 0")
        case True
        with sys_socketpair_spec[OF sp] obtain ea eb where
          c: "fst fd3 \<noteq> snd fd3" "lookup_fd (fdt k2) (fst fd3) = None"
            "lookup_fd (fdt k2) (snd fd3) = None"
            "lookup_fd (fdt k3) = (lookup_fd (fdt k2))(fst fd3 \<mapsto> ea, snd fd3 \<mapsto> eb)"
          by auto
        note cr = created_pair_result[OF c(2,3,4) ff3]
        show ?thesis
        proof (cases f3)
          case True
          then have res: "r = - 1" "fd = (- 1, - 1)"
              "k = snd (sys_close (snd fd3) (snd (sys_close (fst fd3) k3')))"
            using assms p2 p sp f1 f2' \<open>r3 = 0\<close> ff3
            by (auto simp: evutil_make_internal_pipe_'_def Let_def evutil_closesocket_def)
          from cr True show ?thesis unfolding res by (simp add: same2)
        next
          case False
          then have res: "r = 0" "fd = fd3" "k = k3'"
            using assms p2 p sp f1 f2' \<open>r3 = 0\<close> ff3
            by (auto simp: evutil_make_internal_pipe_'_def Let_def)
          from cr False have "is_open k3' (fst fd3)" "is_open k3' (snd fd3)"
            by (simp_all add: open_if)
          with cr False c show ?thesis
            unfolding res by (auto simp: same2 is_open_def touches_only_def)
        qed
      next
        case False
        then have res: "r = - 1" "fd = (- 1, - 1)" "k = k3"
          using assms p2 p sp f1 f2'
          by (auto simp: evutil_make_internal_pipe_'_def Let_def)
        from sys_socketpair_spec[OF sp] False have "fdt k3 = fdt k0" using same2 by auto
        then show ?thesis unfolding res by simp
      qed
    qed
  qed
qed

subsection \<open>Adding one flag\<close>

lemma single_bit_or:
  fixes x :: int
  assumes "x AND 2 ^ n \<noteq> 0"
  shows "x OR 2 ^ n = x"
proof -
  have "bit x n" using assms by (simp add: and_exp_eq_0_iff_not_bit)
  then show ?thesis by (intro bit_eqI) (auto simp: bit_simps)
qed

lemma single_bit_set:
  fixes x :: int
  shows "(x OR 2 ^ n) AND 2 ^ n \<noteq> 0"
  by (simp add: and_exp_eq_0_iff_not_bit bit_simps)

lemma O_NONBLOCK_exp: "O_NONBLOCK = 2 ^ 11"
  by (simp add: O_NONBLOCK_def)

lemma FD_CLOEXEC_exp: "FD_CLOEXEC = 2 ^ 0"
  by (simp add: FD_CLOEXEC_def)

lemma nat_or_int: "nat (int f OR g) = f OR nat g" if "0 \<le> g"
  using that by (metis nat_int nat_0_le of_nat_or_eq)

lemma make_socket_nonblocking_spec:
  assumes "evutil_make_socket_nonblocking fd k = (r, k1)"
  shows "(r = 0 \<or> r = - 1) \<and> touches_only {fd} k k1
     \<and> (r = 0 \<longrightarrow> (\<exists>e. lookup_fd (fdt k) fd = Some e \<and>
            lookup_fd (fdt k1) fd
              = Some (e\<lparr>status_flags := nat (int (status_flags e) OR O_NONBLOCK)\<rparr>)))
     \<and> (r = - 1 \<longrightarrow> fdt k1 = fdt k)
     \<and> (is_nonblocking k fd \<longrightarrow> r = 0 \<and> k1 = k)"
proof (cases "lookup_fd (fdt k) fd")
  case None
  then have "fcntl_GETFL fd k = - 1" by (simp add: fcntl_GETFL_def)
  with assms None show ?thesis
    by (auto simp: evutil_make_socket_nonblocking_def touches_only_def is_nonblocking_iff)
next
  case (Some e)
  define flags where "flags = int (status_flags e)"
  have g: "fcntl_GETFL fd k = flags" "\<not> flags < 0"
    using Some by (simp_all add: fcntl_GETFL_def flags_def)
  have nb: "is_nonblocking k fd \<longleftrightarrow> flags AND O_NONBLOCK \<noteq> 0"
    using Some by (simp add: is_nonblocking_iff flags_def)
  show ?thesis
  proof (cases "flags AND O_NONBLOCK = 0")
    case False
    then have same: "nat (flags OR O_NONBLOCK) = status_flags e"
      using single_bit_or[of flags 11] by (simp add: O_NONBLOCK_exp flags_def)
    have "r = 0" "k1 = k"
      using assms g False by (simp_all add: evutil_make_socket_nonblocking_def)
    with Some same show ?thesis
      by (simp add: touches_only_def flags_def [symmetric])
  next
    case True
    obtain r' k' where s: "fcntl_SETFL fd (flags OR O_NONBLOCK) k = (r', k')"
      by (cases "fcntl_SETFL fd (flags OR O_NONBLOCK) k")
    have res: "r = r'" "k1 = k'"
      using assms g True s fcntl_SETFL_spec[OF s]
      by (auto simp: evutil_make_socket_nonblocking_def Let_def)
    have w: "(flags AND NOT SETFL_MASK) OR ((flags OR O_NONBLOCK) AND SETFL_MASK)
           = flags OR O_NONBLOCK"
      by (rule setfl_add_flag[OF O_NONBLOCK_in_mask])
    from fcntl_SETFL_spec[OF s] Some True nb show ?thesis
      unfolding res by (auto simp: touches_only_def w flags_def [symmetric])
  qed
qed

lemma make_socket_closeonexec_spec:
  assumes "evutil_make_socket_closeonexec fd k = (r, k1)"
  shows "(r = 0 \<or> r = - 1) \<and> touches_only {fd} k k1
     \<and> (r = 0 \<longrightarrow> (\<exists>e. lookup_fd (fdt k) fd = Some e \<and>
            lookup_fd (fdt k1) fd = Some (e\<lparr>cloexec := True\<rparr>)))
     \<and> (r = - 1 \<longrightarrow> fdt k1 = fdt k)
     \<and> (is_cloexec k fd \<longrightarrow> r = 0 \<and> k1 = k)"
proof (cases "lookup_fd (fdt k) fd")
  case None
  then have "fcntl_GETFD fd k = - 1" by (simp add: fcntl_GETFD_def)
  with assms None show ?thesis
    by (auto simp: evutil_make_socket_closeonexec_def touches_only_def is_cloexec_iff)
next
  case (Some e)
  define flags where "flags = (if cloexec e then FD_CLOEXEC else 0)"
  have g: "fcntl_GETFD fd k = flags" "\<not> flags < 0"
    using Some by (simp_all add: fcntl_GETFD_def flags_def FD_CLOEXEC_def)
  have nb: "is_cloexec k fd \<longleftrightarrow> cloexec e"
    using Some by (simp add: is_cloexec_iff)
  show ?thesis
  proof (cases "cloexec e")
    case True
    then have "flags AND FD_CLOEXEC \<noteq> 0" by (simp add: flags_def FD_CLOEXEC_def)
    then have "r = 0" "k1 = k"
      using assms g by (simp_all add: evutil_make_socket_closeonexec_def)
    with Some True show ?thesis
      by (simp add: touches_only_def)
  next
    case False
    then have z: "flags AND FD_CLOEXEC = 0" by (simp add: flags_def)
    obtain r' k' where s: "fcntl_SETFD fd (flags OR FD_CLOEXEC) k = (r', k')"
      by (cases "fcntl_SETFD fd (flags OR FD_CLOEXEC) k")
    have res: "r = r'" "k1 = k'"
      using assms g z s fcntl_SETFD_spec[OF s]
      by (auto simp: evutil_make_socket_closeonexec_def Let_def)
    have w: "(flags OR FD_CLOEXEC) AND FD_CLOEXEC \<noteq> 0"
      using single_bit_set[of flags 0] by (simp add: FD_CLOEXEC_def)
    from fcntl_SETFD_spec[OF s] Some False nb show ?thesis
      unfolding res by (auto simp: touches_only_def w)
  qed
qed

lemma make_socket_nonblocking_twice:
  assumes "evutil_make_socket_nonblocking fd k = (0, k1)"
  shows "evutil_make_socket_nonblocking fd k1 = (0, k1)"
proof -
  from make_socket_nonblocking_spec[OF assms] obtain e where
    e: "lookup_fd (fdt k1) fd
          = Some (e\<lparr>status_flags := nat (int (status_flags e) OR O_NONBLOCK)\<rparr>)"
    by auto
  have "0 \<le> int (status_flags e) OR O_NONBLOCK" by (simp add: O_NONBLOCK_def)
  then have "int (nat (int (status_flags e) OR O_NONBLOCK)) AND O_NONBLOCK \<noteq> 0"
    using single_bit_set[of "int (status_flags e)" 11] by (simp add: O_NONBLOCK_exp)
  with e have nb: "is_nonblocking k1 fd" by (simp add: is_nonblocking_iff)
  obtain r2 k2 where 2: "evutil_make_socket_nonblocking fd k1 = (r2, k2)"
    by (cases "evutil_make_socket_nonblocking fd k1")
  from make_socket_nonblocking_spec[OF 2] nb show ?thesis unfolding 2 by simp
qed

lemma make_socket_closeonexec_twice:
  assumes "evutil_make_socket_closeonexec fd k = (0, k1)"
  shows "evutil_make_socket_closeonexec fd k1 = (0, k1)"
proof -
  from make_socket_closeonexec_spec[OF assms] obtain e where
    e: "lookup_fd (fdt k1) fd = Some (e\<lparr>cloexec := True\<rparr>)"
    by auto
  then have nb: "is_cloexec k1 fd" by (simp add: is_cloexec_iff)
  obtain r2 k2 where 2: "evutil_make_socket_closeonexec fd k1 = (r2, k2)"
    by (cases "evutil_make_socket_closeonexec fd k1")
  from make_socket_closeonexec_spec[OF 2] nb show ?thesis unfolding 2 by simp
qed

text \<open>
  C9. \<open>evutil_make_socket_nonblocking\<close> and \<open>evutil_make_socket_closeonexec\<close> return 0 or
  \<open>-1\<close> and touch no descriptor but their argument. When one returns 0, the entry of
  its descriptor is the old entry with \<open>O_NONBLOCK\<close> (respectively \<open>FD_CLOEXEC\<close>) added
  and every other flag as before; when it returns \<open>-1\<close> the descriptor table is as
  before. When the flag is already set the call changes nothing at all, not even the
  kernel's other state, and returns 0; so the second of two consecutive successful
  calls is a no-op that returns 0.
\<close>

theorem make_socket_flags_idempotent_frame:
  "(evutil_make_socket_nonblocking fd k = (r, k1) \<longrightarrow>
      (r = 0 \<or> r = - 1) \<and> touches_only {fd} k k1
      \<and> (r = 0 \<longrightarrow> (\<exists>e. lookup_fd (fdt k) fd = Some e \<and>
            lookup_fd (fdt k1) fd
              = Some (e\<lparr>status_flags := nat (int (status_flags e) OR O_NONBLOCK)\<rparr>))
            \<and> evutil_make_socket_nonblocking fd k1 = (0, k1))
      \<and> (r = - 1 \<longrightarrow> fdt k1 = fdt k)
      \<and> (is_nonblocking k fd \<longrightarrow> r = 0 \<and> k1 = k))
   \<and> (evutil_make_socket_closeonexec fd k = (r, k1) \<longrightarrow>
      (r = 0 \<or> r = - 1) \<and> touches_only {fd} k k1
      \<and> (r = 0 \<longrightarrow> (\<exists>e. lookup_fd (fdt k) fd = Some e \<and>
            lookup_fd (fdt k1) fd = Some (e\<lparr>cloexec := True\<rparr>))
            \<and> evutil_make_socket_closeonexec fd k1 = (0, k1))
      \<and> (r = - 1 \<longrightarrow> fdt k1 = fdt k)
      \<and> (is_cloexec k fd \<longrightarrow> r = 0 \<and> k1 = k))"
proof (intro conjI impI)
  assume a: "evutil_make_socket_nonblocking fd k = (r, k1)"
  note s = make_socket_nonblocking_spec[OF a]
  show "r = 0 \<or> r = - 1" "touches_only {fd} k k1" using s by blast+
  show "r = - 1 \<Longrightarrow> fdt k1 = fdt k" using s by blast
  show "is_nonblocking k fd \<Longrightarrow> r = 0" "is_nonblocking k fd \<Longrightarrow> k1 = k" using s by blast+
  show "r = 0 \<Longrightarrow> \<exists>e. lookup_fd (fdt k) fd = Some e \<and>
            lookup_fd (fdt k1) fd
              = Some (e\<lparr>status_flags := nat (int (status_flags e) OR O_NONBLOCK)\<rparr>)"
    using s by blast
  show "r = 0 \<Longrightarrow> evutil_make_socket_nonblocking fd k1 = (0, k1)"
    using a make_socket_nonblocking_twice by blast
next
  assume a: "evutil_make_socket_closeonexec fd k = (r, k1)"
  note s = make_socket_closeonexec_spec[OF a]
  show "r = 0 \<or> r = - 1" "touches_only {fd} k k1" using s by blast+
  show "r = - 1 \<Longrightarrow> fdt k1 = fdt k" using s by blast
  show "is_cloexec k fd \<Longrightarrow> r = 0" "is_cloexec k fd \<Longrightarrow> k1 = k" using s by blast+
  show "r = 0 \<Longrightarrow> \<exists>e. lookup_fd (fdt k) fd = Some e \<and>
            lookup_fd (fdt k1) fd = Some (e\<lparr>cloexec := True\<rparr>)"
    using s by blast
  show "r = 0 \<Longrightarrow> evutil_make_socket_closeonexec fd k1 = (0, k1)"
    using a make_socket_closeonexec_twice by blast
qed

subsection \<open>Concrete runs\<close>

lemma make_socket_nonblocking_run:
  "evutil_make_socket_nonblocking 2
     \<lparr>fdt = [Some \<lparr>status_flags = 2, cloexec = False\<rparr>, None,
             Some \<lparr>status_flags = 1025, cloexec = False\<rparr>], faults = []\<rparr>
   = (0, \<lparr>fdt = [Some \<lparr>status_flags = 2, cloexec = False\<rparr>, None,
             Some \<lparr>status_flags = 3073, cloexec = False\<rparr>], faults = []\<rparr>)"
  by (simp add: evutil_make_socket_nonblocking_def fcntl_GETFL_def fcntl_SETFL_def
      lookup_fd_def next_fault_def O_NONBLOCK_def SETFL_MASK_def O_APPEND_def O_ASYNC_def
      O_DIRECT_def O_NOATIME_def Let_def)

lemma make_socket_closeonexec_run:
  "evutil_make_socket_closeonexec 2
     \<lparr>fdt = [Some \<lparr>status_flags = 2, cloexec = False\<rparr>, None,
             Some \<lparr>status_flags = 1025, cloexec = False\<rparr>], faults = []\<rparr>
   = (0, \<lparr>fdt = [Some \<lparr>status_flags = 2, cloexec = False\<rparr>, None,
             Some \<lparr>status_flags = 1025, cloexec = True\<rparr>], faults = []\<rparr>)"
  by (simp add: evutil_make_socket_closeonexec_def fcntl_GETFD_def fcntl_SETFD_def
      lookup_fd_def next_fault_def FD_CLOEXEC_def Let_def)

lemma internal_pipe_run_pipe:
  "evutil_make_internal_pipe_' (0, 0)
     \<lparr>fdt = [Some \<lparr>status_flags = 2, cloexec = False\<rparr>, None,
             Some \<lparr>status_flags = 1025, cloexec = False\<rparr>], faults = [True]\<rparr>
   = (0, (1, 3),
      \<lparr>fdt = [Some \<lparr>status_flags = 2, cloexec = False\<rparr>,
              Some \<lparr>status_flags = 2048, cloexec = True\<rparr>,
              Some \<lparr>status_flags = 1025, cloexec = False\<rparr>,
              Some \<lparr>status_flags = 2049, cloexec = True\<rparr>], faults = []\<rparr>)"
  by (simp add: evutil_make_internal_pipe_'_def sys_pipe2_def sys_pipe_def
      fast_flags_failed_def evutil_fast_socket_nonblocking_def
      evutil_fast_socket_closeonexec_def fcntl_SETFL_def fcntl_SETFD_def alloc_fd_def
      lookup_fd_def next_fault_def FD_CLOEXEC_def O_NONBLOCK_def O_CLOEXEC_def
      SETFL_MASK_def O_APPEND_def O_ASYNC_def O_RDONLY_def O_WRONLY_def
      O_DIRECT_def O_NOATIME_def Let_def)

lemma internal_pipe_run_failed:
  "evutil_make_internal_pipe_' (0, 0)
     \<lparr>fdt = [Some \<lparr>status_flags = 2, cloexec = False\<rparr>, None,
             Some \<lparr>status_flags = 1025, cloexec = False\<rparr>],
      faults = [True, False, False, False, True]\<rparr>
   = (- 1, (- 1, - 1),
      \<lparr>fdt = [Some \<lparr>status_flags = 2, cloexec = False\<rparr>, None,
              Some \<lparr>status_flags = 1025, cloexec = False\<rparr>, None], faults = []\<rparr>)"
  by (simp add: evutil_make_internal_pipe_'_def sys_pipe2_def sys_pipe_def
      fast_flags_failed_def evutil_fast_socket_nonblocking_def sys_close_def
      evutil_fast_socket_closeonexec_def fcntl_SETFL_def fcntl_SETFD_def alloc_fd_def
      lookup_fd_def next_fault_def FD_CLOEXEC_def O_NONBLOCK_def O_CLOEXEC_def
      SETFL_MASK_def O_APPEND_def O_ASYNC_def O_RDONLY_def O_WRONLY_def
      O_DIRECT_def O_NOATIME_def Let_def)


theorem internal_pipe_flags_or_nothing_witness:
  "evutil_make_internal_pipe_' (0, 0)
     \<lparr>fdt = [Some \<lparr>status_flags = 2, cloexec = False\<rparr>, None,
             Some \<lparr>status_flags = 1025, cloexec = False\<rparr>], faults = [True]\<rparr>
   = (0, (1, 3),
      \<lparr>fdt = [Some \<lparr>status_flags = 2, cloexec = False\<rparr>,
              Some \<lparr>status_flags = 2048, cloexec = True\<rparr>,
              Some \<lparr>status_flags = 1025, cloexec = False\<rparr>,
              Some \<lparr>status_flags = 2049, cloexec = True\<rparr>], faults = []\<rparr>)
   \<and> is_nonblocking
        \<lparr>fdt = [Some \<lparr>status_flags = 2, cloexec = False\<rparr>,
              Some \<lparr>status_flags = 2048, cloexec = True\<rparr>,
              Some \<lparr>status_flags = 1025, cloexec = False\<rparr>,
              Some \<lparr>status_flags = 2049, cloexec = True\<rparr>], faults = []\<rparr> 3
   \<and> is_cloexec
        \<lparr>fdt = [Some \<lparr>status_flags = 2, cloexec = False\<rparr>,
              Some \<lparr>status_flags = 2048, cloexec = True\<rparr>,
              Some \<lparr>status_flags = 1025, cloexec = False\<rparr>,
              Some \<lparr>status_flags = 2049, cloexec = True\<rparr>], faults = []\<rparr> 1
   \<and> evutil_make_internal_pipe_' (0, 0)
     \<lparr>fdt = [Some \<lparr>status_flags = 2, cloexec = False\<rparr>, None,
             Some \<lparr>status_flags = 1025, cloexec = False\<rparr>],
      faults = [True, False, False, False, True]\<rparr>
   = (- 1, (- 1, - 1),
      \<lparr>fdt = [Some \<lparr>status_flags = 2, cloexec = False\<rparr>, None,
              Some \<lparr>status_flags = 1025, cloexec = False\<rparr>, None], faults = []\<rparr>)
   \<and> (\<forall>x. lookup_fd [Some \<lparr>status_flags = 2, cloexec = False\<rparr>, None,
              Some \<lparr>status_flags = 1025, cloexec = False\<rparr>, None] x
          = lookup_fd [Some \<lparr>status_flags = 2, cloexec = False\<rparr>, None,
              Some \<lparr>status_flags = 1025, cloexec = False\<rparr>] x)"
  using internal_pipe_flags_or_nothing[OF internal_pipe_run_pipe]
    internal_pipe_flags_or_nothing[OF internal_pipe_run_failed]
    internal_pipe_run_pipe internal_pipe_run_failed
  by simp

theorem make_socket_flags_idempotent_frame_witness:
  "evutil_make_socket_nonblocking 2
     \<lparr>fdt = [Some \<lparr>status_flags = 2, cloexec = False\<rparr>, None,
             Some \<lparr>status_flags = 1025, cloexec = False\<rparr>], faults = []\<rparr>
   = (0, \<lparr>fdt = [Some \<lparr>status_flags = 2, cloexec = False\<rparr>, None,
             Some \<lparr>status_flags = 3073, cloexec = False\<rparr>], faults = []\<rparr>)
   \<and> evutil_make_socket_nonblocking 2
     \<lparr>fdt = [Some \<lparr>status_flags = 2, cloexec = False\<rparr>, None,
             Some \<lparr>status_flags = 3073, cloexec = False\<rparr>], faults = []\<rparr>
   = (0, \<lparr>fdt = [Some \<lparr>status_flags = 2, cloexec = False\<rparr>, None,
             Some \<lparr>status_flags = 3073, cloexec = False\<rparr>], faults = []\<rparr>)
   \<and> evutil_make_socket_closeonexec 2
     \<lparr>fdt = [Some \<lparr>status_flags = 2, cloexec = False\<rparr>, None,
             Some \<lparr>status_flags = 1025, cloexec = False\<rparr>], faults = []\<rparr>
   = (0, \<lparr>fdt = [Some \<lparr>status_flags = 2, cloexec = False\<rparr>, None,
             Some \<lparr>status_flags = 1025, cloexec = True\<rparr>], faults = []\<rparr>)
   \<and> evutil_make_socket_closeonexec 2
     \<lparr>fdt = [Some \<lparr>status_flags = 2, cloexec = False\<rparr>, None,
             Some \<lparr>status_flags = 1025, cloexec = True\<rparr>], faults = []\<rparr>
   = (0, \<lparr>fdt = [Some \<lparr>status_flags = 2, cloexec = False\<rparr>, None,
             Some \<lparr>status_flags = 1025, cloexec = True\<rparr>], faults = []\<rparr>)"
  using make_socket_flags_idempotent_frame
      [of 2 "\<lparr>fdt = [Some \<lparr>status_flags = 2, cloexec = False\<rparr>, None,
             Some \<lparr>status_flags = 1025, cloexec = False\<rparr>], faults = []\<rparr>" 0
          "\<lparr>fdt = [Some \<lparr>status_flags = 2, cloexec = False\<rparr>, None,
             Some \<lparr>status_flags = 3073, cloexec = False\<rparr>], faults = []\<rparr>"]
    make_socket_flags_idempotent_frame
      [of 2 "\<lparr>fdt = [Some \<lparr>status_flags = 2, cloexec = False\<rparr>, None,
             Some \<lparr>status_flags = 1025, cloexec = False\<rparr>], faults = []\<rparr>" 0
          "\<lparr>fdt = [Some \<lparr>status_flags = 2, cloexec = False\<rparr>, None,
             Some \<lparr>status_flags = 1025, cloexec = True\<rparr>], faults = []\<rparr>"]
    make_socket_nonblocking_run make_socket_closeonexec_run
  by simp

section \<open>Properties of the formatted output\<close>

text \<open>
  C8. Whatever the C library's \<open>vsnprintf\<close> does: with \<open>buflen = 0\<close>, \<open>evutil_vsnprintf\<close>
  returns 0 and leaves the buffer as it was (it does not call the library); with
  \<open>buflen > 0\<close> the last byte of the buffer, \<open>buf[buflen - 1]\<close>, is NUL after the call, all
  other bytes are what the library left, and the library's return value is passed on.
  \<open>evutil_snprintf\<close> gives the same result.
\<close>

theorem evutil_vsnprintf_terminated:
  "evutil_vsnprintf vsnprintf buf 0 format ap = (0, buf)
   \<and> (0 < buflen \<longrightarrow>
        snd (evutil_vsnprintf vsnprintf buf buflen format ap) (buflen - 1) = NUL
      \<and> (\<forall>i. i \<noteq> buflen - 1 \<longrightarrow>
            snd (evutil_vsnprintf vsnprintf buf buflen format ap) i
              = snd (vsnprintf format ap buf buflen) i)
      \<and> fst (evutil_vsnprintf vsnprintf buf buflen format ap)
          = fst (vsnprintf format ap buf buflen))
   \<and> evutil_snprintf vsnprintf buf buflen format ap
       = evutil_vsnprintf vsnprintf buf buflen format ap"
  by (simp add: evutil_vsnprintf_def evutil_snprintf_def split: prod.split)

text \<open>
  A library that fills the whole buffer and leaves it unterminated, as some
  \<open>vsnprintf\<close>s before C99 do on truncation.
\<close>

theorem evutil_vsnprintf_terminated_witness:
  "snd (evutil_vsnprintf (\<lambda>f a b n. (- 1, \<lambda>i. if i < n then CHR ''x'' else b i))
          (\<lambda>i. CHR ''-'') 4 () ()) 3 = NUL
   \<and> snd (evutil_vsnprintf (\<lambda>f a b n. (- 1, \<lambda>i. if i < n then CHR ''x'' else b i))
          (\<lambda>i. CHR ''-'') 4 () ()) 2 = CHR ''x''
   \<and> evutil_snprintf (\<lambda>f a b n. (- 1, \<lambda>i. if i < n then CHR ''x'' else b i))
          (\<lambda>i. CHR ''-'') 0 () () = (0, \<lambda>i. CHR ''-'')"
  using evutil_vsnprintf_terminated
      [of "\<lambda>f a b n. (- 1, \<lambda>i. if i < n then CHR ''x'' else b i)" "\<lambda>i. CHR ''-''" "()" "()" 4]
    evutil_vsnprintf_terminated
      [of "\<lambda>f a b n. (- 1, \<lambda>i. if i < n then CHR ''x'' else b i)" "\<lambda>i. CHR ''-''" "()" "()" 0]
  by simp

section \<open>Properties of the timeout heap\<close>

subsection \<open>Indices\<close>

lemma parent_less: "0 < i \<Longrightarrow> parent i < i"
  by (simp add: parent_def)

lemma parent_children: "0 < j \<Longrightarrow> parent j = i \<longleftrightarrow> j = 2 * i + 1 \<or> j = 2 * i + 2"
  unfolding parent_def by presburger

lemma parent_left [simp]: "parent (2 * i + 1) = i"
  by (simp add: parent_def)

lemma parent_right [simp]: "parent (2 * i + 2) = i"
  by (simp add: parent_def)

subsection \<open>Swapping two nodes\<close>

lemma nodes_place [simp]: "nodes (place h i n) = (nodes h)[i := n]"
  by (simp add: place_def)

lemma stored_index_place [simp]:
  "stored_index (place h i n) = (stored_index h)(event n \<mapsto> i)"
  by (simp add: place_def)

lemma nodes_heap_swap:
  "nodes (heap_swap h i j) = (nodes h)[i := nodes h ! j, j := nodes h ! i]"
  by (simp add: heap_swap_def Let_def)

lemma length_heap_swap [simp]: "length (nodes (heap_swap h i j)) = length (nodes h)"
  by (simp add: nodes_heap_swap)

lemma nth_heap_swap:
  "i < length (nodes h) \<Longrightarrow> j < length (nodes h) \<Longrightarrow>
   nodes (heap_swap h i j) ! k
     = (if k = j then nodes h ! i else if k = i then nodes h ! j else nodes h ! k)"
  by (simp add: nodes_heap_swap nth_list_update)

lemma stored_index_heap_swap:
  "stored_index (heap_swap h i j)
     = (stored_index h)(event (nodes h ! j) \<mapsto> i, event (nodes h ! i) \<mapsto> j)"
  by (simp add: heap_swap_def Let_def)

lemma index_ok_event_inj:
  "index_ok h \<Longrightarrow> i < length (nodes h) \<Longrightarrow> j < length (nodes h) \<Longrightarrow>
   event (nodes h ! i) = event (nodes h ! j) \<Longrightarrow> i = j"
  by (metis index_ok_def option.inject)


lemma index_okD1: "index_ok h \<Longrightarrow> i < length (nodes h) \<Longrightarrow> stored_index h (event (nodes h ! i)) = Some i"
  by (simp add: index_ok_def)

lemma index_okD2: "index_ok h \<Longrightarrow> stored_index h e = Some i \<Longrightarrow> i < length (nodes h) \<and> event (nodes h ! i) = e"
  by (simp add: index_ok_def)

lemma index_ok_heap_swap:
  assumes ok: "index_ok h" and i: "i < length (nodes h)" and j: "j < length (nodes h)"
  shows "index_ok (heap_swap h i j)"
proof -
  define a where "a = nodes h ! i"
  define b where "b = nodes h ! j"
  have ns: "nodes (heap_swap h i j) = (nodes h)[i := b, j := a]"
    and si: "stored_index (heap_swap h i j) = (stored_index h)(event b \<mapsto> i, event a \<mapsto> j)"
    by (simp_all add: nodes_heap_swap stored_index_heap_swap a_def b_def)
  have inj: "event (nodes h ! k) = event (nodes h ! l) \<Longrightarrow> k = l"
    if "k < length (nodes h)" "l < length (nodes h)" for k l
    using index_ok_event_inj[OF ok that] .
  have ab: "event a = event b \<longleftrightarrow> i = j"
    using inj[OF i j] by (auto simp: a_def b_def)
  have 1: "stored_index (heap_swap h i j) (event (nodes (heap_swap h i j) ! k)) = Some k"
    if k: "k < length (nodes h)" for k
  proof (cases "k = j")
    case True
    then show ?thesis using j by (simp add: ns si)
  next
    case kj: False
    show ?thesis
    proof (cases "k = i")
      case True
      then show ?thesis using i kj ab by (simp add: ns si)
    next
      case False
      have "event (nodes h ! k) \<noteq> event a" "event (nodes h ! k) \<noteq> event b"
        using inj[OF k i] inj[OF k j] False kj by (auto simp: a_def b_def)
      then show ?thesis using False kj k index_okD1[OF ok k] by (simp add: ns si)
    qed
  qed
  have 2: "k < length (nodes h) \<and> event (nodes (heap_swap h i j) ! k) = e"
    if s: "stored_index (heap_swap h i j) e = Some k" for e k
  proof (cases "e = event a")
    case True
    then have "k = j" using s by (simp add: si)
    then show ?thesis using True j by (simp add: ns)
  next
    case ea: False
    show ?thesis
    proof (cases "e = event b")
      case True
      then have "k = i" "i \<noteq> j" using s ea ab by (auto simp: si)
      then show ?thesis using True i by (simp add: ns)
    next
      case False
      then have "stored_index h e = Some k" using s ea by (simp add: si)
      from index_okD2[OF ok this] have k: "k < length (nodes h)" "event (nodes h ! k) = e"
        by simp_all
      then have "k \<noteq> i" "k \<noteq> j" using ea False by (auto simp: a_def b_def)
      then show ?thesis using k by (simp add: ns)
    qed
  qed
  show ?thesis
    unfolding index_ok_def using 1 2 by simp
qed

lemma entries_heap_swap:
  assumes ok: "index_ok h" and i: "i < length (nodes h)" and j: "j < length (nodes h)"
  shows "entries (heap_swap h i j) = entries h"
proof
  fix e
  note ok' = index_ok_heap_swap[OF ok i j]
  show "entries (heap_swap h i j) e = entries h e"
  proof (cases "stored_index h e")
    case None
    have "stored_index (heap_swap h i j) e = None"
    proof (rule ccontr)
      assume "stored_index (heap_swap h i j) e \<noteq> None"
      then have "e = event (nodes h ! j) \<or> e = event (nodes h ! i)"
        using None by (auto simp: stored_index_heap_swap split: if_splits)
      then show False using None index_okD1[OF ok i] index_okD1[OF ok j] by auto
    qed
    with None show ?thesis by (simp add: entries_def)
  next
    case (Some k)
    from index_okD2[OF ok Some] have k: "k < length (nodes h)" "event (nodes h ! k) = e"
      by simp_all
    define k' where "k' = (if k = i then j else if k = j then i else k)"
    have k': "k' < length (nodes h)" using i j k by (simp add: k'_def)
    have "nodes (heap_swap h i j) ! k' = nodes h ! k"
      using i j k by (auto simp: nth_heap_swap k'_def)
    moreover from this have "stored_index (heap_swap h i j) e = Some k'"
      using index_okD1[OF ok' , of k'] k' k by simp
    ultimately show ?thesis using Some by (simp add: entries_def)
  qed
qed


subsection \<open>The repair loops keep the entries\<close>

declare sift_up.simps [simp del] sift_down.simps [simp del]

lemma sift_up_keeps:
  "index_ok h \<Longrightarrow>
   index_ok (sift_up h i) \<and> entries (sift_up h i) = entries h \<and>
   length (nodes (sift_up h i)) = length (nodes h)"
proof (induction h i rule: sift_up.induct)
  case (1 h i)
  show ?case
  proof (cases "0 < i \<and> i < length (nodes h)
         \<and> deadline (nodes h ! i) < deadline (nodes h ! parent i)")
    case True
    then have p: "parent i < length (nodes h)" using parent_less[of i] by simp
    from True have i: "i < length (nodes h)" by simp
    note ok = index_ok_heap_swap[OF "1.prems" i p]
    have eq: "sift_up h i = sift_up (heap_swap h i (parent i)) (parent i)"
      using True by (subst sift_up.simps) simp
    from "1.IH"[OF True ok] entries_heap_swap[OF "1.prems" i p] show ?thesis
      unfolding eq by simp
  next
    case False
    have "sift_up h i = h"
      by (subst sift_up.simps) (simp only: False if_False)
    with "1.prems" show ?thesis by simp
  qed
qed

lemma min_child_range:
  "i < length (nodes h) \<Longrightarrow> min_child h i < length (nodes h)"
  by (simp add: min_child_def Let_def)

lemma min_child_cases:
  "min_child h i = i \<or> min_child h i = 2 * i + 1 \<or> min_child h i = 2 * i + 2"
  by (simp add: min_child_def Let_def)

lemma sift_down_keeps:
  "index_ok h \<Longrightarrow>
   index_ok (sift_down h i) \<and> entries (sift_down h i) = entries h \<and>
   length (nodes (sift_down h i)) = length (nodes h)"
proof (induction h i rule: sift_down.induct)
  case (1 h i)
  show ?case
  proof (cases "i < length (nodes h) \<and> min_child h i \<noteq> i")
    case True
    then have i: "i < length (nodes h)" by simp
    note m = min_child_range[OF i]
    note ok = index_ok_heap_swap[OF "1.prems" i m]
    have eq: "sift_down h i = sift_down (heap_swap h i (min_child h i)) (min_child h i)"
      using True by (subst sift_down.simps) simp
    from "1.IH"[OF True ok] entries_heap_swap[OF "1.prems" i m] show ?thesis
      unfolding eq by simp
  next
    case False
    have "sift_down h i = h"
      by (subst sift_down.simps) (simp only: False if_False)
    with "1.prems" show ?thesis by simp
  qed
qed


subsection \<open>The repair loops restore the order\<close>

lemma sift_up_step:
  assumes ex: "heap_except_up h i"
    and c: "0 < i" "i < length (nodes h)"
      "deadline (nodes h ! i) < deadline (nodes h ! parent i)"
  shows "heap_except_up (heap_swap h i (parent i)) (parent i)"
proof -
  define n where "n = length (nodes h)"
  define p where "p = parent i"
  define D where "D k = deadline (nodes h ! k)" for k
  define D' where "D' k = deadline (nodes (heap_swap h i p) ! k)" for k
  have pi: "p < i" "p < n" using parent_less[OF c(1)] c(2) by (simp_all add: p_def n_def)
  have D': "D' k = (if k = p then D i else if k = i then D p else D k)" if "k < n" for k
    using c(2) pi(2) by (simp add: D'_def D_def nth_heap_swap n_def)
  have c1: "D (parent j) \<le> D j" if "0 < j" "j < n" "j \<noteq> i" for j
    using ex that by (simp add: heap_except_up_def D_def n_def)
  have c2: "D p \<le> D j" if "0 < j" "j < n" "parent j = i" for j
    using ex that c(1) by (simp add: heap_except_up_def D_def n_def p_def)
  have lt: "D i < D p" using c(3) by (simp add: D_def p_def)
  have pj: "parent j < n" "parent j < j" if "0 < j" "j < n" for j
    using parent_less[OF that(1)] that(2) by simp_all
  have 1: "D' (parent j) \<le> D' j" if j: "0 < j" "j < n" "j \<noteq> p" for j
  proof (cases "j = i")
    case True
    then show ?thesis using lt pi by (simp add: D' p_def [symmetric] c(2)[folded n_def])
  next
    case False
    note q = pj[OF j(1,2)]
    show ?thesis
    proof (cases "parent j = i")
      case True
      then show ?thesis using False j c2[OF j(1,2) True] pi(1) c(2)
        by (simp add: D' n_def)
    next
      case ni: False
      show ?thesis
      proof (cases "parent j = p")
        case True
        then show ?thesis using False j c1[OF j(1,2) False] lt pi
          by (simp add: D')
      next
        case False
        then show ?thesis using ni \<open>j \<noteq> i\<close> j c1[OF j(1,2) \<open>j \<noteq> i\<close>] q
          by (simp add: D')
      qed
    qed
  qed
  have 2: "D' (parent p) \<le> D' j" if j: "0 < j" "j < n" "parent j = p" "0 < p" for j
  proof -
    note pp = pj[OF j(4) pi(2)]
    have ppi: "parent p \<noteq> i" "parent p \<noteq> p" using pp pi by simp_all
    have a: "D (parent p) \<le> D p" using c1[OF j(4) pi(2)] pi(1) by simp
    have jp: "j \<noteq> p" using pj[OF j(1,2)] j(3) by simp
    show ?thesis
    proof (cases "j = i")
      case True
      then show ?thesis using a ppi pp c(2) by (simp add: D' n_def)
    next
      case False
      then show ?thesis using a c1[OF j(1,2) False] j(3) ppi pp jp j(2) by (simp add: D')
    qed
  qed
  show ?thesis
    unfolding heap_except_up_def
    using 1 2 by (simp add: D'_def p_def n_def)
qed

lemma sift_up_heap: "heap_except_up h i \<Longrightarrow> is_heap (sift_up h i)"
proof (induction h i rule: sift_up.induct)
  case (1 h i)
  show ?case
  proof (cases "0 < i \<and> i < length (nodes h)
         \<and> deadline (nodes h ! i) < deadline (nodes h ! parent i)")
    case True
    have eq: "sift_up h i = sift_up (heap_swap h i (parent i)) (parent i)"
      using True by (subst sift_up.simps) simp
    from True sift_up_step[OF "1.prems"] have "heap_except_up (heap_swap h i (parent i)) (parent i)"
      by simp
    from "1.IH"[OF True this] show ?thesis unfolding eq .
  next
    case False
    have eq: "sift_up h i = h"
      by (subst sift_up.simps) (simp only: False if_False)
    have "deadline (nodes h ! parent j) \<le> deadline (nodes h ! j)"
      if "0 < j" "j < length (nodes h)" for j
    proof (cases "j = i")
      case True
      with False that show ?thesis by auto
    next
      case False
      with "1.prems" that show ?thesis by (simp add: heap_except_up_def)
    qed
    then show ?thesis unfolding eq is_heap_def by simp
  qed
qed


lemma min_child_least:
  assumes "i < length (nodes h)"
  shows "deadline (nodes h ! min_child h i) \<le> deadline (nodes h ! i)"
    and "0 < j \<Longrightarrow> j < length (nodes h) \<Longrightarrow> parent j = i \<Longrightarrow>
         deadline (nodes h ! min_child h i) \<le> deadline (nodes h ! j)"
proof -
  show "deadline (nodes h ! min_child h i) \<le> deadline (nodes h ! i)"
    by (simp add: min_child_def Let_def)
  assume j: "0 < j" "j < length (nodes h)" "parent j = i"
  then have "j = 2 * i + 1 \<or> j = 2 * i + 2" by (simp add: parent_children)
  then show "deadline (nodes h ! min_child h i) \<le> deadline (nodes h ! j)"
    using j(2) by (auto simp: min_child_def Let_def)
qed

lemma min_child_parent: "min_child h i \<noteq> i \<Longrightarrow> parent (min_child h i) = i \<and> i < min_child h i"
  using min_child_cases[of h i] by (auto simp: parent_def)

lemma sift_down_step:
  assumes ex: "heap_except_down h i"
    and c: "i < length (nodes h)" "min_child h i \<noteq> i"
  shows "heap_except_down (heap_swap h i (min_child h i)) (min_child h i)"
proof -
  define n where "n = length (nodes h)"
  define m where "m = min_child h i"
  define D where "D k = deadline (nodes h ! k)" for k
  define D' where "D' k = deadline (nodes (heap_swap h i m) ! k)" for k
  have mi: "i < m" "m < n" "parent m = i" "0 < m"
    using min_child_parent[OF c(2)] min_child_range[OF c(1)] by (simp_all add: m_def n_def)
  have i: "i < n" using c(1) by (simp add: n_def)
  have D': "D' k = (if k = m then D i else if k = i then D m else D k)" if "k < n" for k
    using c(1) mi(2) by (simp add: D'_def D_def nth_heap_swap n_def)
  have c1: "D (parent j) \<le> D j" if "0 < j" "j < n" "parent j \<noteq> i" for j
    using ex that by (simp add: heap_except_down_def D_def n_def)
  have c2: "D (parent i) \<le> D j" if "0 < j" "j < n" "parent j = i" "0 < i" for j
    using ex that by (simp add: heap_except_down_def D_def n_def)
  have least: "D m \<le> D i" "\<And>j. 0 < j \<Longrightarrow> j < n \<Longrightarrow> parent j = i \<Longrightarrow> D m \<le> D j"
    using min_child_least[OF c(1)] by (simp_all add: D_def m_def n_def)
  have pj: "parent j < n" "parent j < j" if "0 < j" "j < n" for j
    using parent_less[OF that(1)] that(2) by simp_all
  have 1: "D' (parent j) \<le> D' j" if j: "0 < j" "j < n" "parent j \<noteq> m" for j
  proof (cases "j = m")
    case True
    then show ?thesis using least(1) mi i by (simp add: D')
  next
    case jm: False
    note q = pj[OF j(1,2)]
    show ?thesis
    proof (cases "j = i")
      case True
      have "parent i \<noteq> i" "parent i \<noteq> m" using q True mi(1) by simp_all
      then show ?thesis using True c2[OF mi(4) mi(2) mi(3)] j(1) q mi(1) i
        by (simp add: D')
    next
      case ji: False
      show ?thesis
      proof (cases "parent j = i")
        case True
        then show ?thesis using least(2)[OF j(1,2) True] jm ji j(2) i mi(1)
          by (simp add: D')
      next
        case False
        then show ?thesis using c1[OF j(1,2) False] jm ji j q by (simp add: D')
      qed
    qed
  qed
  have 2: "D' (parent m) \<le> D' j" if j: "0 < j" "j < n" "parent j = m" for j
  proof -
    have "j \<noteq> m" "j \<noteq> i" using pj[OF j(1,2)] j(3) mi(1) by simp_all
    moreover have "D m \<le> D j" using c1[OF j(1,2)] j(3) mi(1) by simp
    ultimately show ?thesis using mi i j(2) by (simp add: D')
  qed
  show ?thesis
    unfolding heap_except_down_def
    using 1 2 by (simp add: D'_def m_def n_def)
qed

lemma sift_down_heap: "heap_except_down h i \<Longrightarrow> is_heap (sift_down h i)"
proof (induction h i rule: sift_down.induct)
  case (1 h i)
  show ?case
  proof (cases "i < length (nodes h) \<and> min_child h i \<noteq> i")
    case True
    have eq: "sift_down h i = sift_down (heap_swap h i (min_child h i)) (min_child h i)"
      using True by (subst sift_down.simps) simp
    from True sift_down_step[OF "1.prems"]
    have "heap_except_down (heap_swap h i (min_child h i)) (min_child h i)"
      by simp
    from "1.IH"[OF True this] show ?thesis unfolding eq .
  next
    case False
    have eq: "sift_down h i = h"
      by (subst sift_down.simps) (simp only: False if_False)
    have "deadline (nodes h ! parent j) \<le> deadline (nodes h ! j)"
      if j: "0 < j" "j < length (nodes h)" for j
    proof (cases "parent j = i")
      case True
      then have i: "i < length (nodes h)" using parent_less[OF j(1)] j(2) by simp
      with False have "min_child h i = i" by simp
      with min_child_least(2)[OF i j True] True show ?thesis by simp
    next
      case False
      with "1.prems" that show ?thesis by (simp add: heap_except_down_def)
    qed
    then show ?thesis unfolding eq is_heap_def by simp
  qed
qed


subsection \<open>Insert\<close>

lemma entries_None_iff: "entries h e = None \<longleftrightarrow> stored_index h e = None"
  by (simp add: entries_def)

lemma heap_insert_correct:
  assumes ok: "index_ok h" and hp: "is_heap h" and new: "stored_index h e = None"
  shows "\<exists>h1. heap_insert h e d = Inr h1 \<and> index_ok h1 \<and> is_heap h1 \<and>
           entries h1 = (entries h)(e \<mapsto> d)"
proof -
  define n where "n = length (nodes h)"
  define x where "x = \<lparr>deadline = d, event = e\<rparr>"
  define h1 where "h1 = h\<lparr>nodes := nodes h @ [x], stored_index := (stored_index h)(e \<mapsto> n)\<rparr>"
  have ins: "heap_insert h e d = Inr (sift_up h1 n)"
    using new by (simp add: heap_insert_def Let_def h1_def x_def n_def)
  have ne: "event (nodes h ! k) \<noteq> e" if "k < n" for k
    using index_okD1[OF ok, of k] that new by (auto simp: n_def)
  have ns1: "nodes h1 ! k = (if k < n then nodes h ! k else x)" if "k \<le> n" for k
    using that by (simp add: h1_def nth_append n_def)
  have len1: "length (nodes h1) = Suc n" by (simp add: h1_def n_def)
  have si1: "stored_index h1 = (stored_index h)(e \<mapsto> n)" by (simp add: h1_def)
  have ok1: "index_ok h1"
    unfolding index_ok_def
  proof (intro conjI allI impI)
    fix k assume "k < length (nodes h1)"
    then have k: "k \<le> n" by (simp add: len1)
    show "stored_index h1 (event (nodes h1 ! k)) = Some k"
    proof (cases "k < n")
      case True
      with ne[OF True] index_okD1[OF ok, of k] show ?thesis
        by (simp add: ns1 k si1 n_def)
    next
      case False
      with k show ?thesis by (simp add: ns1 si1 x_def)
    qed
  next
    fix e' k assume s: "stored_index h1 e' = Some k"
    show "k < length (nodes h1)"
      using s index_okD2[OF ok, of e' k] by (auto simp: si1 len1 n_def split: if_splits)
    show "event (nodes h1 ! k) = e'"
    proof (cases "e' = e")
      case True
      with s show ?thesis by (simp add: si1 ns1 x_def)
    next
      case False
      with s have "stored_index h e' = Some k" by (simp add: si1)
      from index_okD2[OF ok this] show ?thesis by (simp add: ns1 n_def)
    qed
  qed
  have en1: "entries h1 = (entries h)(e \<mapsto> d)"
  proof
    fix e'
    show "entries h1 e' = ((entries h)(e \<mapsto> d)) e'"
    proof (cases "e' = e")
      case True
      then show ?thesis by (simp add: entries_def si1 ns1 x_def)
    next
      case False
      show ?thesis
      proof (cases "stored_index h e'")
        case None
        with False show ?thesis by (simp add: entries_def si1)
      next
        case (Some k)
        from index_okD2[OF ok Some] have "k < n" by (simp add: n_def)
        with False Some show ?thesis by (simp add: entries_def si1 ns1)
      qed
    qed
  qed
  have ex: "heap_except_up h1 n"
    unfolding heap_except_up_def
  proof (intro conjI allI impI)
    fix j assume j: "0 < j \<and> j < length (nodes h1) \<and> j \<noteq> n"
    then have jn: "j < n" "parent j < n" using parent_less[of j] by (simp_all add: len1)
    with hp j show "deadline (nodes h1 ! parent j) \<le> deadline (nodes h1 ! j)"
      by (simp add: ns1 is_heap_def n_def)
  next
    fix j assume j: "0 < j \<and> j < length (nodes h1) \<and> parent j = n \<and> 0 < n"
    then have False using parent_less[of j] by (simp add: len1)
    then show "deadline (nodes h1 ! parent n) \<le> deadline (nodes h1 ! j)" ..
  qed
  from sift_up_keeps[OF ok1, of n] sift_up_heap[OF ex] en1 ins show ?thesis by simp
qed

lemma heap_insert_refused:
  "stored_index h e \<noteq> None \<Longrightarrow> heap_insert h e d = Inl Already_In_Heap"
  by (simp add: heap_insert_def)


subsection \<open>Delete\<close>

lemma heap_delete_correct:
  assumes ok: "index_ok h" and hp: "is_heap h" and old: "stored_index h e = Some i"
  shows "\<exists>h1. heap_delete h e = Inr h1 \<and> index_ok h1 \<and> is_heap h1 \<and>
           entries h1 = (entries h)(e := None)"
proof -
  define n where "n = length (nodes h) - 1"
  define lst where "lst = nodes h ! n"
  define D where "D k = deadline (nodes h ! k)" for k
  define h1 where "h1 = h\<lparr>nodes := butlast (nodes h),
                           stored_index := (stored_index h)(e := None)\<rparr>"
  from index_okD2[OF ok old] have i: "i < length (nodes h)" "event (nodes h ! i) = e"
    by simp_all
  then have len: "length (nodes h) = Suc n" and "i \<le> n" by (simp_all add: n_def)
  have inj: "event (nodes h ! k) = event (nodes h ! l) \<Longrightarrow> k = l"
    if "k \<le> n" "l \<le> n" for k l
    using index_ok_event_inj[OF ok, of k l] that len by simp
  have heap: "D (parent j) \<le> D j" if "0 < j" "j \<le> n" for j
    using hp that len by (simp add: is_heap_def D_def)
  have pj: "parent j < j" if "0 < j" for j using parent_less[OF that] .
  have ns1: "nodes h1 ! k = nodes h ! k" if "k < n" for k
    using that len by (simp add: h1_def nth_butlast)
  have len1: "length (nodes h1) = n" by (simp add: h1_def len)
  have si1: "stored_index h1 = (stored_index h)(e := None)" by (simp add: h1_def)
  show ?thesis
  proof (cases "i = n")
    case True
    have del: "heap_delete h e = Inr h1"
      using old i True by (simp add: heap_delete_def Let_def h1_def n_def)
    have ok1: "index_ok h1"
      unfolding index_ok_def
    proof (intro conjI allI impI)
      fix k assume "k < length (nodes h1)"
      then have k: "k < n" by (simp add: len1)
      then have "event (nodes h ! k) \<noteq> e" using inj[of k i] i(2) True by auto
      with index_okD1[OF ok, of k] k len
      show "stored_index h1 (event (nodes h1 ! k)) = Some k" by (simp add: ns1 si1)
    next
      fix e' k assume s: "stored_index h1 e' = Some k"
      then have e': "e' \<noteq> e" "stored_index h e' = Some k"
        by (auto simp: si1 split: if_splits)
      from index_okD2[OF ok e'(2)] have k: "k \<le> n" "event (nodes h ! k) = e'"
        using len by simp_all
      with e'(1) i(2) True have "k \<noteq> n" by auto
      with k show "k < length (nodes h1)" "event (nodes h1 ! k) = e'"
        by (simp_all add: len1 ns1)
    qed
    have en1: "entries h1 = (entries h)(e := None)"
    proof
      fix e'
      show "entries h1 e' = ((entries h)(e := None)) e'"
      proof (cases "stored_index h1 e'")
        case None
        then show ?thesis by (auto simp: entries_def si1 split: if_splits)
      next
        case (Some k)
        from index_okD2[OF ok1 Some] have "k < n" by (simp add: len1)
        with Some show ?thesis by (auto simp: entries_def si1 ns1 split: if_splits)
      qed
    qed
    have "is_heap h1"
      unfolding is_heap_def
    proof (intro allI impI)
      fix j assume "0 < j \<and> j < length (nodes h1)"
      then have j: "0 < j" "j < n" "parent j < n" using pj[of j] by (simp_all add: len1)
      with heap[of j] show "deadline (nodes h1 ! parent j) \<le> deadline (nodes h1 ! j)"
        by (simp add: ns1 D_def)
    qed
    with del ok1 en1 show ?thesis by simp
  next
    case False
    with \<open>i \<le> n\<close> have iln: "i < n" by simp
    define h2 where "h2 = place h1 i lst"
    have le: "event lst \<noteq> e" using inj[of n i] i(2) iln by (auto simp: lst_def)
    have ns2: "nodes h2 ! k = (if k = i then lst else nodes h ! k)" if "k < n" for k
      using that iln by (simp add: h2_def len1 ns1 nth_list_update)
    have len2: "length (nodes h2) = n" by (simp add: h2_def len1)
    have si2: "stored_index h2 = (stored_index h)(e := None, event lst \<mapsto> i)"
      by (simp add: h2_def si1)
    have D2: "deadline (nodes h2 ! k) = (if k = i then deadline lst else D k)" if "k < n" for k
      using that by (simp add: ns2 D_def)
    have del: "heap_delete h e =
        Inr (if 0 < i \<and> deadline lst < deadline (nodes h2 ! parent i)
             then sift_up h2 i else sift_down h2 i)"
      using old i False
      by (simp add: heap_delete_def Let_def h1_def h2_def n_def lst_def)
    have ok2: "index_ok h2"
      unfolding index_ok_def
    proof (intro conjI allI impI)
      fix k assume "k < length (nodes h2)"
      then have k: "k < n" by (simp add: len2)
      show "stored_index h2 (event (nodes h2 ! k)) = Some k"
      proof (cases "k = i")
        case True
        then show ?thesis using k by (simp add: ns2 si2)
      next
        case False
        then have "event (nodes h ! k) \<noteq> e" "event (nodes h ! k) \<noteq> event lst"
          using inj[of k i] inj[of k n] i(2) k iln by (auto simp: lst_def)
        with index_okD1[OF ok, of k] k len False show ?thesis by (simp add: ns2 si2)
      qed
    next
      fix e' k assume s: "stored_index h2 e' = Some k"
      have "k < length (nodes h2) \<and> event (nodes h2 ! k) = e'"
      proof (cases "e' = event lst")
        case True
        with s have "k = i" by (simp add: si2)
        with True iln show ?thesis by (simp add: len2 ns2)
      next
        case False
        with s have e': "e' \<noteq> e" "stored_index h e' = Some k"
          by (auto simp: si2 split: if_splits)
        from index_okD2[OF ok e'(2)] have k: "k \<le> n" "event (nodes h ! k) = e'"
          using len by simp_all
        with e'(1) False i(2) have "k \<noteq> n" "k \<noteq> i" by (auto simp: lst_def)
        with k show ?thesis by (simp add: len2 ns2)
      qed
      then show "k < length (nodes h2)" "event (nodes h2 ! k) = e'" by simp_all
    qed
    have en2: "entries h2 = (entries h)(e := None)"
    proof
      fix e'
      show "entries h2 e' = ((entries h)(e := None)) e'"
      proof (cases "e' = event lst")
        case True
        have "stored_index h (event lst) = Some n"
          using index_okD1[OF ok, of n] len by (simp add: lst_def)
        with True le iln show ?thesis by (simp add: entries_def si2 ns2 lst_def)
      next
        case False
        show ?thesis
        proof (cases "stored_index h2 e'")
          case None
          with False show ?thesis by (auto simp: entries_def si2 split: if_splits)
        next
          case (Some k)
          from index_okD2[OF ok2 Some] have k: "k < n" "event (nodes h2 ! k) = e'"
            by (simp_all add: len2)
          with False have "k \<noteq> i" by (auto simp: ns2)
          with Some k False show ?thesis
            by (auto simp: entries_def si2 ns2 split: if_splits)
        qed
      qed
    qed
    show ?thesis
    proof (cases "0 < i \<and> deadline lst < deadline (nodes h2 ! parent i)")
      case True
      then have ip: "0 < i" "parent i < i" "parent i < n" and lt: "deadline lst < D (parent i)"
        using pj[of i] iln by (simp_all add: D2)
      have ex: "heap_except_up h2 i"
        unfolding heap_except_up_def
      proof (intro conjI allI impI)
        fix j assume j: "0 < j \<and> j < length (nodes h2) \<and> j \<noteq> i"
        then have jn: "j < n" "parent j < n" "parent j < j" using pj[of j] by (simp_all add: len2)
        show "deadline (nodes h2 ! parent j) \<le> deadline (nodes h2 ! j)"
        proof (cases "parent j = i")
          case True
          have "D i \<le> D j" using heap[of j] j jn True by simp
          moreover have "D (parent i) \<le> D i" using heap[of i] ip iln by simp
          ultimately show ?thesis using lt j jn True by (simp add: D2)
        next
          case False
          then show ?thesis using heap[of j] j jn by (simp add: D2)
        qed
      next
        fix j assume j: "0 < j \<and> j < length (nodes h2) \<and> parent j = i \<and> 0 < i"
        then have jn: "j < n" "j \<noteq> i" using pj[of j] by (auto simp: len2)
        have "D i \<le> D j" using heap[of j] j jn by simp
        moreover have "D (parent i) \<le> D i" using heap[of i] ip iln by simp
        ultimately show "deadline (nodes h2 ! parent i) \<le> deadline (nodes h2 ! j)"
          using jn ip by (simp add: D2)
      qed
      from sift_up_keeps[OF ok2, of i] sift_up_heap[OF ex] en2 del True show ?thesis
        by simp
    next
      case False
      have ex: "heap_except_down h2 i"
        unfolding heap_except_down_def
      proof (intro conjI allI impI)
        fix j assume j: "0 < j \<and> j < length (nodes h2) \<and> parent j \<noteq> i"
        then have jn: "j < n" "parent j < n" "parent j < j" using pj[of j] by (simp_all add: len2)
        show "deadline (nodes h2 ! parent j) \<le> deadline (nodes h2 ! j)"
        proof (cases "j = i")
          case True
          with False j jn show ?thesis by (simp add: D2)
        next
          case ji: False
          then show ?thesis using heap[of j] j jn by (simp add: D2)
        qed
      next
        fix j assume j: "0 < j \<and> j < length (nodes h2) \<and> parent j = i \<and> 0 < i"
        then have jn: "j < n" "j \<noteq> i" using pj[of j] by (auto simp: len2)
        have ip: "parent i < i" "parent i < n" using pj[of i] j iln by simp_all
        have "D i \<le> D j" using heap[of j] j jn by simp
        moreover have "D (parent i) \<le> D i" using heap[of i] j iln by simp
        ultimately show "deadline (nodes h2 ! parent i) \<le> deadline (nodes h2 ! j)"
          using jn ip by (simp add: D2)
      qed
      from sift_down_keeps[OF ok2, of i] sift_down_heap[OF ex] en2 del False show ?thesis
        by simp
    qed
  qed
qed

lemma heap_delete_refused:
  "stored_index h e = None \<Longrightarrow> heap_delete h e = Inl Not_In_Heap"
  by (simp add: heap_delete_def)


subsection \<open>Peek\<close>

lemma is_heap_root_least:
  assumes "is_heap h"
  shows "k < length (nodes h) \<Longrightarrow> deadline (nodes h ! 0) \<le> deadline (nodes h ! k)"
proof (induction k rule: less_induct)
  case (less k)
  show ?case
  proof (cases "k = 0")
    case True
    then show ?thesis by simp
  next
    case False
    then have p: "parent k < k" using parent_less by simp
    with less.prems have "parent k < length (nodes h)" by simp
    from less.IH[OF p this] assms False less.prems show ?thesis
      by (fastforce simp: is_heap_def)
  qed
qed

lemma ran_entries:
  assumes "index_ok h"
  shows "ran (entries h) = (\<lambda>k. deadline (nodes h ! k)) ` {..<length (nodes h)}"
proof (intro set_eqI iffI)
  fix v assume "v \<in> ran (entries h)"
  then obtain e where "entries h e = Some v" by (auto simp: ran_def)
  then obtain k where k: "stored_index h e = Some k" "v = deadline (nodes h ! k)"
    by (auto simp: entries_def)
  from index_okD2[OF assms k(1)] k(2)
  show "v \<in> (\<lambda>k. deadline (nodes h ! k)) ` {..<length (nodes h)}" by auto
next
  fix v assume "v \<in> (\<lambda>k. deadline (nodes h ! k)) ` {..<length (nodes h)}"
  then obtain k where k: "k < length (nodes h)" "v = deadline (nodes h ! k)" by auto
  from index_okD1[OF assms k(1)] k(2)
  have "entries h (event (nodes h ! k)) = Some v" by (simp add: entries_def)
  then show "v \<in> ran (entries h)" by (auto simp: ran_def)
qed

lemma entries_empty_iff:
  assumes "index_ok h"
  shows "entries h = Map.empty \<longleftrightarrow> nodes h = []"
proof
  assume e: "entries h = Map.empty"
  show "nodes h = []"
  proof (rule ccontr)
    assume "nodes h \<noteq> []"
    then have "0 < length (nodes h)" by simp
    from index_okD1[OF assms this] have "entries h (event (nodes h ! 0)) \<noteq> None"
      by (simp add: entries_def)
    with e show False by simp
  qed
next
  assume "nodes h = []"
  then have "stored_index h e = None" for e
    using index_okD2[OF assms, of e] by (cases "stored_index h e") auto
  then show "entries h = Map.empty" by (auto simp: entries_def)
qed

lemma peek_min_deadline_correct:
  assumes ok: "index_ok h" and hp: "is_heap h"
  shows "peek_min_deadline h
           = (if entries h = Map.empty then None else Some (Min (ran (entries h))))"
proof (cases "nodes h")
  case Nil
  with entries_empty_iff[OF ok] show ?thesis by (simp add: peek_min_deadline_def)
next
  case (Cons x xs)
  then have ne: "nodes h \<noteq> []" and x: "deadline x = deadline (nodes h ! 0)" by simp_all
  let ?S = "(\<lambda>k. deadline (nodes h ! k)) ` {..<length (nodes h)}"
  have "Min ?S = deadline (nodes h ! 0)"
  proof (rule Min_eqI)
    show "finite ?S" by simp
    show "deadline (nodes h ! 0) \<le> y" if "y \<in> ?S" for y
      using that is_heap_root_least[OF hp] by auto
    show "deadline (nodes h ! 0) \<in> ?S" using ne by auto
  qed
  with ne entries_empty_iff[OF ok] Cons show ?thesis
    by (simp add: peek_min_deadline_def ran_entries[OF ok])
qed

subsection \<open>Interleavings\<close>

lemma index_ok_empty: "index_ok heap_empty"
  by (simp add: index_ok_def heap_empty_def)

lemma is_heap_empty: "is_heap heap_empty"
  by (simp add: is_heap_def heap_empty_def)

lemma entries_empty: "entries heap_empty = Map.empty"
  by (rule ext) (simp add: entries_def heap_empty_def)

lemma apply_op_correct:
  assumes ok: "index_ok h" and hp: "is_heap h"
  shows "index_ok (apply_op h op) \<and> is_heap (apply_op h op) \<and>
         entries (apply_op h op) = present_after (entries h) op"
proof (cases op)
  case (Insert e d)
  show ?thesis
  proof (cases "stored_index h e")
    case None
    from heap_insert_correct[OF ok hp None, of d] None Insert show ?thesis
      by (auto simp: entries_None_iff)
  next
    case (Some i)
    then have "heap_insert h e d = Inl Already_In_Heap" by (simp add: heap_insert_refused)
    with ok hp Some Insert show ?thesis by (simp add: entries_None_iff)
  qed
next
  case (Delete e)
  show ?thesis
  proof (cases "stored_index h e")
    case None
    then have "entries h e = None" by (simp add: entries_None_iff)
    then have "(entries h)(e := None) = entries h" by (simp add: fun_upd_idem)
    with ok hp None Delete show ?thesis by (simp add: heap_delete_refused)
  next
    case (Some i)
    from heap_delete_correct[OF ok hp Some] Delete show ?thesis by auto
  qed
qed

lemma run_ops_correct:
  "index_ok (run_ops ops) \<and> is_heap (run_ops ops) \<and> entries (run_ops ops) = present ops"
proof (induction ops rule: rev_induct)
  case Nil
  show ?case
    by (simp add: run_ops_def present_def index_ok_empty is_heap_empty entries_empty)
next
  case (snoc op ops)
  then have ok: "index_ok (run_ops ops)" and hp: "is_heap (run_ops ops)"
    and en: "entries (run_ops ops) = present ops" by simp_all
  have "run_ops (ops @ [op]) = apply_op (run_ops ops) op"
    "present (ops @ [op]) = present_after (present ops) op"
    by (simp_all add: run_ops_def present_def)
  with apply_op_correct[OF ok hp, of op] en show ?case by simp
qed

text \<open>
  C5 (against the heap as modelled from the spec). After every interleaving of inserts
  and deletes of arbitrary events, starting from the empty heap: the heap invariant
  holds (no node is earlier than its parent), the heap holds exactly the entries that
  are still present, and \<open>peek_min_deadline\<close> returns the least deadline among them
  (nothing when none is present).
\<close>

theorem timeout_heap_delete_keeps_order:
  "is_heap (run_ops ops)
   \<and> entries (run_ops ops) = present ops
   \<and> peek_min_deadline (run_ops ops)
       = (if present ops = Map.empty then None else Some (Min (ran (present ops))))"
  using run_ops_correct[of ops] peek_min_deadline_correct[of "run_ops ops"] by simp

lemma heap_run:
  "nodes (run_ops [Insert 1 50, Insert 2 30, Insert 3 40, Insert 4 10, Delete 2])
     = [\<lparr>deadline = 10, event = 4\<rparr>, \<lparr>deadline = 50, event = 1\<rparr>,
        \<lparr>deadline = 40, event = 3\<rparr>]"
  by (simp add: run_ops_def heap_empty_def heap_insert_def heap_delete_def Let_def
      sift_up.simps sift_down.simps heap_swap_def place_def parent_def min_child_def)

theorem timeout_heap_delete_keeps_order_witness:
  "nodes (run_ops [Insert 1 50, Insert 2 30, Insert 3 40, Insert 4 10, Delete 2])
     = [\<lparr>deadline = 10, event = 4\<rparr>, \<lparr>deadline = 50, event = 1\<rparr>,
        \<lparr>deadline = 40, event = 3\<rparr>]
   \<and> is_heap (run_ops [Insert 1 50, Insert 2 30, Insert 3 40, Insert 4 10, Delete 2])
   \<and> present [Insert 1 50, Insert 2 30, Insert 3 40, Insert 4 10, Delete 2]
       = [1 \<mapsto> 50, 3 \<mapsto> 40, 4 \<mapsto> 10]
   \<and> peek_min_deadline (run_ops [Insert 1 50, Insert 2 30, Insert 3 40, Insert 4 10, Delete 2])
       = Some 10"
proof -
  let ?ops = "[Insert 1 50, Insert 2 30, Insert 3 40, Insert 4 10, Delete 2]"
  have p: "present ?ops = [1 \<mapsto> 50, 3 \<mapsto> 40, 4 \<mapsto> 10]"
    by (rule ext) (simp add: present_def)
  have "peek_min_deadline (run_ops ?ops) = Some 10"
    using heap_run by (simp add: peek_min_deadline_def)
  with timeout_heap_delete_keeps_order[of ?ops] heap_run p show ?thesis by simp
qed

section \<open>Properties of the random number generator\<close>

subsection \<open>What seeding leaves alone\<close>






lemma arc4_addrandom_keeps [simp]:
  "rs_initialized (arc4_addrandom dat n g) = rs_initialized g"
  "arc4_stir_pid (arc4_addrandom dat n g) = arc4_stir_pid g"
  "arc4_count (arc4_addrandom dat n g) = arc4_count g"
  "arc4random_urandom_filename (arc4_addrandom dat n g) = arc4random_urandom_filename g"
  by (simp_all add: arc4_addrandom_def Let_def)







subsection \<open>The keystream\<close>

lemma arc4_getbyte_keeps [simp]:
  "rs_initialized (snd (arc4_getbyte g)) = rs_initialized g"
  "arc4_stir_pid (snd (arc4_getbyte g)) = arc4_stir_pid g"
  "arc4_count (snd (arc4_getbyte g)) = arc4_count g"
  "arc4random_urandom_filename (snd (arc4_getbyte g)) = arc4random_urandom_filename g"
  "arc4_i (rs (snd (arc4_getbyte g))) = arc4_i (rs g) + 1"
  by (simp_all add: arc4_getbyte_def Let_def)

lemma arc4_getbyte_set_count [simp]:
  "fst (arc4_getbyte (g\<lparr>arc4_count := c\<rparr>)) = fst (arc4_getbyte g)"
  "snd (arc4_getbyte (g\<lparr>arc4_count := c\<rparr>)) = (snd (arc4_getbyte g))\<lparr>arc4_count := c\<rparr>"
  by (simp_all add: arc4_getbyte_def Let_def)

lemma arc4_discard_keeps [simp]:
  "rs_initialized (arc4_discard k g) = rs_initialized g"
  "arc4_stir_pid (arc4_discard k g) = arc4_stir_pid g"
  "arc4_count (arc4_discard k g) = arc4_count g"
  "arc4random_urandom_filename (arc4_discard k g) = arc4random_urandom_filename g"
  "arc4_i (rs (arc4_discard k g)) = arc4_i (rs g) + of_nat k"
  by (induction k arbitrary: g) simp_all

lemma arc4_discard_set_count [simp]:
  "arc4_discard k (g\<lparr>arc4_count := c\<rparr>) = (arc4_discard k g)\<lparr>arc4_count := c\<rparr>"
  by (induction k arbitrary: g) simp_all

lemma arc4_discard_add: "arc4_discard (n + m) g = arc4_discard m (arc4_discard n g)"
  by (induction n arbitrary: g) simp_all

lemma arc4_discard_Suc: "arc4_discard (Suc k) g = snd (arc4_getbyte (arc4_discard k g))"
  using arc4_discard_add[of k 1 g] by simp


subsection \<open>The stir that a call starts with\<close>










subsection \<open>The output loop writes every byte it is asked for\<close>



subsection \<open>What a stir does to the counter\<close>









end
